theory Spec2Isabelle
  imports Main "HOL-Library.Multiset"
begin

section \<open>JavaScript values used by \<open>scripts/update-flows.ts\<close>\<close>

subsection \<open>Numbers: IEEE 754 binary64, round to nearest, ties to even\<close>

text \<open>
  A JavaScript \<open>number\<close> is a binary64 value. \<open>Finite s m e\<close> stands for
  \<open>(-1)\<^sup>s \<sqdot> m \<sqdot> 2\<^sup>e\<close>; the values that arithmetic produces have \<open>m < 2\<^sup>5\<^sup>3\<close>,
  \<open>-1074 \<le> e \<le> 971\<close> and \<open>2\<^sup>5\<^sup>2 \<le> m\<close> unless \<open>e = -1074\<close> (subnormals and the two
  zeros \<open>Finite s 0 (-1074)\<close>). \<open>Infinity s\<close> are the two infinities.
\<close>

datatype number = Finite bool nat int | Infinity bool | NaN

fun bitLength :: "nat \<Rightarrow> nat" where
  "bitLength n = (if n = 0 then 0 else Suc (bitLength (n div 2)))"

declare bitLength.simps [simp del]

text \<open>\<open>ilog2 p q\<close> is \<open>\<lfloor>log\<^sub>2 (p / q)\<rfloor>\<close> for positive \<open>p\<close> and \<open>q\<close>.\<close>

definition ilog2 :: "nat \<Rightarrow> nat \<Rightarrow> int" where
  "ilog2 p q =
     (let k = int (bitLength p) - int (bitLength q)
      in if (if 0 \<le> k then q * 2 ^ nat k \<le> p else q \<le> p * 2 ^ nat (- k)) then k else k - 1)"

text \<open>\<open>roundHalfEven p q\<close> is the integer nearest to \<open>p / q\<close>, the even one on a tie.\<close>

definition roundHalfEven :: "nat \<Rightarrow> nat \<Rightarrow> nat" where
  "roundHalfEven p q =
     (let n = p div q; r = p mod q
      in if 2 * r < q then n else if q < 2 * r then n + 1 else if even n then n else n + 1)"

text \<open>
  \<open>roundFloat s p q k\<close> rounds the exact magnitude \<open>(p / q) \<sqdot> 2\<^sup>k\<close> with sign \<open>s\<close> to
  binary64: the exponent of the result is that of the exact value, at least \<open>-1022\<close>;
  the significand is rounded to 53 bits at that exponent; a carry out of the
  significand moves to the next exponent; a result above the largest finite value
  is an infinity.
\<close>

definition roundFloat :: "bool \<Rightarrow> nat \<Rightarrow> nat \<Rightarrow> int \<Rightarrow> number" where
  "roundFloat sg p q k =
     (if p = 0 then Finite sg 0 (- 1074)
      else
        let e = max (ilog2 p q + k) (- 1022);
            t = e - 52;
            m = (if t \<le> k then roundHalfEven (p * 2 ^ nat (k - t)) q
                 else roundHalfEven p (q * 2 ^ nat (t - k)))
        in if m = 2 ^ 53
           then (if 971 < t + 1 then Infinity sg else Finite sg (2 ^ 52) (t + 1))
           else (if 971 < t then Infinity sg else Finite sg m t))"

text \<open>The literal \<open>0\<close>.\<close>

definition zeroNum :: number where
  "zeroNum = Finite False 0 (- 1074)"

text \<open>\<open>Number(b)\<close> for a bigint \<open>b\<close>.\<close>

definition Number :: "int \<Rightarrow> number" where
  "Number i = roundFloat (i < 0) (nat \<bar>i\<bar>) 1 0"

text \<open>\<open>x + y\<close> on numbers.\<close>

fun fadd :: "number \<Rightarrow> number \<Rightarrow> number" where
  "fadd (Finite s1 m1 e1) (Finite s2 m2 e2) =
     (let e = min e1 e2;
          x = (if s1 then - 1 else 1) * int m1 * 2 ^ nat (e1 - e)
            + (if s2 then - 1 else 1) * int m2 * 2 ^ nat (e2 - e)
      in if x = 0 then Finite (s1 \<and> s2) 0 (- 1074)
         else roundFloat (x < 0) (nat \<bar>x\<bar>) 1 e)"
| "fadd (Finite s1 m1 e1) (Infinity s2) = Infinity s2"
| "fadd (Infinity s1) (Finite s2 m2 e2) = Infinity s1"
| "fadd (Infinity s1) (Infinity s2) = (if s1 = s2 then Infinity s1 else NaN)"
| "fadd NaN y = NaN"
| "fadd x NaN = NaN"

text \<open>\<open>x / y\<close> on numbers.\<close>

fun fdiv :: "number \<Rightarrow> number \<Rightarrow> number" where
  "fdiv (Finite s1 m1 e1) (Finite s2 m2 e2) =
     (if m2 = 0 then (if m1 = 0 then NaN else Infinity (s1 \<noteq> s2))
      else roundFloat (s1 \<noteq> s2) m1 m2 (e1 - e2))"
| "fdiv (Finite s1 m1 e1) (Infinity s2) = Finite (s1 \<noteq> s2) 0 (- 1074)"
| "fdiv (Infinity s1) (Finite s2 m2 e2) = Infinity (s1 \<noteq> s2)"
| "fdiv (Infinity s1) (Infinity s2) = NaN"
| "fdiv NaN y = NaN"
| "fdiv x NaN = NaN"

text \<open>\<open>x <= y\<close> on numbers: false when either side is \<open>NaN\<close>; the two zeros are equal.\<close>

fun fle :: "number \<Rightarrow> number \<Rightarrow> bool" where
  "fle (Finite s1 m1 e1) (Finite s2 m2 e2) =
     (let e = min e1 e2
      in (if s1 then - 1 else 1) * int m1 * 2 ^ nat (e1 - e)
         \<le> (if s2 then - 1 else 1) * int m2 * 2 ^ nat (e2 - e))"
| "fle (Finite s1 m1 e1) (Infinity s2) = (\<not> s2)"
| "fle (Infinity s1) (Finite s2 m2 e2) = s1"
| "fle (Infinity s1) (Infinity s2) = (s1 \<or> \<not> s2)"
| "fle NaN y = False"
| "fle x NaN = False"

text \<open>\<open>x < y\<close> on numbers.\<close>

definition flt :: "number \<Rightarrow> number \<Rightarrow> bool" where
  "flt x y = (fle x y \<and> \<not> fle y x)"

text \<open>Truthiness of a number (\<open>x || 0\<close>): the zeros and \<open>NaN\<close> are falsy.\<close>

fun numTruthy :: "number \<Rightarrow> bool" where
  "numTruthy (Finite s m e) = (m \<noteq> 0)"
| "numTruthy (Infinity s) = True"
| "numTruthy NaN = False"

text \<open>
  Sign classes used in the proofs: \<open>posNum\<close> are the numbers above zero,
  \<open>nonnegNum\<close> adds the zero \<open>+0\<close>, \<open>nonposNum\<close> are the zeros and the numbers below
  zero. All three exclude \<open>NaN\<close>; the first two ask for an exponent in range.
\<close>

fun posNum :: "number \<Rightarrow> bool" where
  "posNum (Finite s m e) = (\<not> s \<and> 0 < m \<and> - 1074 \<le> e)"
| "posNum (Infinity s) = (\<not> s)"
| "posNum NaN = False"

fun nonnegNum :: "number \<Rightarrow> bool" where
  "nonnegNum (Finite s m e) = (\<not> s \<and> - 1074 \<le> e)"
| "nonnegNum (Infinity s) = (\<not> s)"
| "nonnegNum NaN = False"

fun nonposNum :: "number \<Rightarrow> bool" where
  "nonposNum (Finite s m e) = (s \<or> m = 0)"
| "nonposNum (Infinity s) = s"
| "nonposNum NaN = False"

subsection \<open>Strings\<close>

text \<open>
  Strings are lists of 8-bit characters. \<open>toLowerCase\<close> maps \<open>A\<close>--\<open>Z\<close> to
  \<open>a\<close>--\<open>z\<close>, which is what \<open>String.prototype.toLowerCase\<close> does on ASCII text
  (hexadecimal addresses and topics).
\<close>

definition lowerChar :: "char \<Rightarrow> char" where
  "lowerChar c =
     (case map_of (zip ''ABCDEFGHIJKLMNOPQRSTUVWXYZ'' ''abcdefghijklmnopqrstuvwxyz'') c of
        None \<Rightarrow> c
      | Some l \<Rightarrow> l)"

definition toLowerCase :: "string \<Rightarrow> string" where
  "toLowerCase s = map lowerChar s"

text \<open>Truthiness of a possibly undefined string: \<open>undefined\<close> and \<open>""\<close> are falsy.\<close>

fun truthy :: "string option \<Rightarrow> bool" where
  "truthy None = False"
| "truthy (Some s) = (s \<noteq> [])"

text \<open>Array indexing \<open>xs[i]\<close>: \<open>undefined\<close> (\<open>None\<close>) out of range.\<close>

definition nthOpt :: "'a list \<Rightarrow> nat \<Rightarrow> 'a option" where
  "nthOpt xs i = (if i < length xs then Some (xs ! i) else None)"

text \<open>\<open>s.split(sep)\<close> for a non-empty separator.\<close>

function splitAcc :: "string \<Rightarrow> string \<Rightarrow> string \<Rightarrow> string list" where
  "splitAcc sep acc [] = [rev acc]"
| "splitAcc sep acc (c # cs) =
     (if sep \<noteq> [] \<and> take (length sep) (c # cs) = sep
      then rev acc # splitAcc sep [] (drop (length sep) (c # cs))
      else splitAcc sep (c # acc) cs)"
  by pat_completeness auto
termination
  by (relation "measure (\<lambda>(sep, acc, s). length s)") auto

definition split :: "string \<Rightarrow> string \<Rightarrow> string list" where
  "split sep s = splitAcc sep [] s"

subsection \<open>BigInt\<close>

datatype error = TypeError | SyntaxError | IOError

fun indexOf :: "'a \<Rightarrow> 'a list \<Rightarrow> nat option" where
  "indexOf x [] = None"
| "indexOf x (y # ys) = (if x = y then Some 0 else map_option Suc (indexOf x ys))"

text \<open>The value of a digit in a radix up to 36; letters in either case.\<close>

definition digitVal :: "char \<Rightarrow> nat option" where
  "digitVal c = indexOf (lowerChar c) ''0123456789abcdefghijklmnopqrstuvwxyz''"

fun parseDigits :: "nat \<Rightarrow> nat \<Rightarrow> string \<Rightarrow> nat option" where
  "parseDigits r acc [] = Some acc"
| "parseDigits r acc (c # cs) =
     (case digitVal c of
        None \<Rightarrow> None
      | Some d \<Rightarrow> if d < r then parseDigits r (acc * r + d) cs else None)"

definition parseNat :: "nat \<Rightarrow> string \<Rightarrow> error + int" where
  "parseNat r ds =
     (if ds = [] then Inl SyntaxError
      else case parseDigits r 0 ds of None \<Rightarrow> Inl SyntaxError | Some n \<Rightarrow> Inr (int n))"

text \<open>The ASCII white space: tab, line feed, vertical tab, form feed, carriage return, space.\<close>

definition isWhiteSpace :: "char \<Rightarrow> bool" where
  "isWhiteSpace c = (c \<in> set [CHR 0x09, CHR 0x0A, CHR 0x0B, CHR 0x0C, CHR 0x0D, CHR '' ''])"

definition trim :: "string \<Rightarrow> string" where
  "trim s = rev (dropWhile isWhiteSpace (rev (dropWhile isWhiteSpace s)))"

text \<open>
  \<open>BigInt(str)\<close> for a string (StringToBigInt): surrounding white space is ignored,
  the empty string is \<open>0n\<close>, a prefix \<open>0x\<close>, \<open>0o\<close> or \<open>0b\<close> (either case) selects the
  radix and admits no sign, a decimal literal may carry a sign, and anything else
  throws a \<open>SyntaxError\<close>.
\<close>

definition BigInt :: "string \<Rightarrow> error + int" where
  "BigInt str =
     (let s = trim str
      in if s = [] then Inr 0
         else if take 2 s = ''0x'' \<or> take 2 s = ''0X'' then parseNat 16 (drop 2 s)
         else if take 2 s = ''0o'' \<or> take 2 s = ''0O'' then parseNat 8 (drop 2 s)
         else if take 2 s = ''0b'' \<or> take 2 s = ''0B'' then parseNat 2 (drop 2 s)
         else if take 1 s = ''+'' then parseNat 10 (drop 1 s)
         else if take 1 s = ''-''
           then (case parseNat 10 (drop 1 s) of Inl err \<Rightarrow> Inl err | Inr n \<Rightarrow> Inr (- n))
         else parseNat 10 s)"

text \<open>\<open>a / b\<close> and \<open>a % b\<close> on bigints truncate towards zero.\<close>

definition bigDiv :: "int \<Rightarrow> int \<Rightarrow> int" where
  "bigDiv a b = sgn a * sgn b * (\<bar>a\<bar> div \<bar>b\<bar>)"

definition bigRem :: "int \<Rightarrow> int \<Rightarrow> int" where
  "bigRem a b = sgn a * (\<bar>a\<bar> mod \<bar>b\<bar>)"

text \<open>\<open>b.toString(16)\<close>.\<close>

definition hexChar :: "nat \<Rightarrow> char" where
  "hexChar d = ''0123456789abcdef'' ! d"

fun hexDigits :: "nat \<Rightarrow> string" where
  "hexDigits n = (if n < 16 then [hexChar n] else hexDigits (n div 16) @ [hexChar (n mod 16)])"

declare hexDigits.simps [simp del]

definition toString16 :: "int \<Rightarrow> string" where
  "toString16 b = (if b < 0 then ''-'' @ hexDigits (nat (- b)) else hexDigits (nat b))"

section \<open>The program\<close>

subsection \<open>Constants and types\<close>

definition TRANSFER_TOPIC :: string where
  "TRANSFER_TOPIC = ''0xddf252ad1be2c89b69c2b068fc378daa952ba7f163c4a11628f55a4df523b3ef''"

definition BLOCKS_24H :: int where
  "BLOCKS_24H = 24 * 60 * 60"

definition BLOCKS_7D :: int where
  "BLOCKS_7D = 7 * BLOCKS_24H"

text \<open>\<open>cfg.contracts || []\<close> is guarded in the code, so the field may be missing.\<close>

record ProtocolConfig =
  contracts :: "string list option"
  category :: "string option"

text \<open>A \<open>ProtocolsFile\<close> object is given by its \<open>Object.entries\<close>, in their order.\<close>

type_synonym ProtocolsFile = "(string \<times> ProtocolConfig) list"

record Log =
  address :: string
  topics :: "string list"
  data :: string
  blockNumber :: string
  transactionHash :: string

text \<open>
  \<open>source\<close> and \<open>target\<close> are the first two elements of \<open>key.split("|||")\<close>, which
  are \<open>undefined\<close> (\<open>None\<close>) when the array is shorter.
\<close>

record FlowEntry =
  source :: "string option"
  target :: "string option"
  volume :: number

record FlowFile =
  period :: string
  lastUpdated :: string
  totalVolume :: number
  flows :: "FlowEntry list"

subsection \<open>Helpers\<close>

definition hexToBigInt :: "string \<Rightarrow> error + int" where
  "hexToBigInt hex = (if hex = [] \<or> hex = ''0x'' then Inr 0 else BigInt hex)"

text \<open>
  \<open>weiToMon(value, decimals = 18)\<close>; the only call site uses the default. The number
  \<open>decimals\<close> is taken as the natural number it holds (\<open>BigInt(decimals)\<close> throws on
  anything else).
\<close>

definition weiToMon :: "int \<Rightarrow> nat \<Rightarrow> number" where
  "weiToMon value decimals =
     (if value = 0 then zeroNum
      else
        let base = 10 ^ decimals;
            whole = bigDiv value base;
            fraction = bigRem value base
        in fadd (Number whole) (fdiv (Number fraction) (Number base)))"

text \<open>\<open>blockOffset(latestBlock, offset)\<close>, the number \<open>offset\<close> taken as the integer it holds.\<close>

definition blockOffset :: "int \<Rightarrow> int \<Rightarrow> string" where
  "blockOffset latestBlock offset =
     (let off = offset;
          from = (if latestBlock > off then latestBlock - off else 0)
      in ''0x'' @ toString16 from)"

subsection \<open>Load protocols\<close>

text \<open>
  The file system is a map from paths to what is there; reading anything but a file
  throws. \<open>JSON.parse\<close> is a parameter: \<open>Inl SyntaxError\<close> on text that is not JSON.
  The result comes with the lines written by \<open>console.warn\<close>.
\<close>

datatype fsEntry = File string | Directory

definition loadProtocols ::
  "(string \<Rightarrow> error + ProtocolsFile) \<Rightarrow> (string \<rightharpoonup> fsEntry) \<Rightarrow> string
     \<Rightarrow> (error + ProtocolsFile) \<times> string list" where
  "loadProtocols jsonParse fs dirname =
     (let p = dirname @ ''/protocols.json''
      in if fs p = None
         then (Inr [], [''protocols.json not found, using empty config''])
         else (case fs p of
                 Some (File raw) \<Rightarrow> (jsonParse raw, [])
               | _ \<Rightarrow> (Inl IOError, [])))"

subsection \<open>Build flows\<close>

text \<open>
  The reverse index \<open>contractToProtocol\<close> (a \<open>Map\<close> that is only read by key);
  \<open>contractsOrEmpty cfg\<close> is \<open>cfg.contracts || []\<close>.
\<close>

definition contractsOrEmpty :: "ProtocolConfig \<Rightarrow> string list" where
  "contractsOrEmpty cfg = (case contracts cfg of None \<Rightarrow> [] | Some cs \<Rightarrow> cs)"

definition contractToProtocol :: "ProtocolsFile \<Rightarrow> (string \<rightharpoonup> string)" where
  "contractToProtocol protocols =
     foldl (\<lambda>m (name, cfg).
              foldl (\<lambda>m addr. m(toLowerCase addr \<mapsto> name)) m (contractsOrEmpty cfg))
       Map.empty protocols"

text \<open>
  \<open>volumeMap\<close> is a \<open>Map\<close> whose entries are later read in insertion order: a list of
  pairs with distinct keys. \<open>mapSet\<close> is \<open>Map.prototype.set\<close>: an existing key keeps
  its place, a new key goes last.
\<close>

type_synonym volumeMap = "(string \<times> number) list"

fun mapSet :: "string \<Rightarrow> number \<Rightarrow> volumeMap \<Rightarrow> volumeMap" where
  "mapSet k v [] = [(k, v)]"
| "mapSet k v (p # ps) = (if fst p = k then (k, v) # ps else p # mapSet k v ps)"

definition addFlow :: "string \<Rightarrow> string \<Rightarrow> number \<Rightarrow> volumeMap \<Rightarrow> volumeMap" where
  "addFlow src tgt vol vm =
     (if fle vol zeroNum then vm
      else
        let key = src @ ''|||'' @ tgt;
            prev = (case map_of vm key of
                      None \<Rightarrow> zeroNum
                    | Some x \<Rightarrow> if numTruthy x then x else zeroNum)
        in mapSet key (fadd prev vol) vm)"

text \<open>The three \<open>if\<close> statements that close the loop body, in their order.\<close>

definition addFlows :: "string option \<Rightarrow> string option \<Rightarrow> number \<Rightarrow> volumeMap \<Rightarrow> volumeMap" where
  "addFlows fromProt toProt valueMon vm =
     (let vm1 = (if \<not> truthy fromProt \<and> truthy toProt
                 then addFlow ''Wallets'' (the toProt) valueMon vm else vm);
          vm2 = (if truthy fromProt \<and> \<not> truthy toProt
                 then addFlow (the fromProt) ''Wallets'' valueMon vm1 else vm1)
      in if truthy fromProt \<and> truthy toProt \<and> fromProt \<noteq> toProt
         then addFlow (the fromProt) (the toProt) valueMon vm2 else vm2)"

text \<open>One iteration of the loop over the logs; \<open>Inr\<close> also when the log is skipped.\<close>

definition processLog :: "(string \<rightharpoonup> string) \<Rightarrow> volumeMap \<Rightarrow> Log \<Rightarrow> error + volumeMap" where
  "processLog c2p vm log =
     (let topic0 = nthOpt (topics log) 0;
          topicFrom = nthOpt (topics log) 1;
          topicTo = nthOpt (topics log) 2
      in case topic0 of
           None \<Rightarrow> Inl TypeError
         | Some t0 \<Rightarrow>
             if toLowerCase t0 \<noteq> TRANSFER_TOPIC then Inr vm
             else if \<not> truthy topicFrom \<or> \<not> truthy topicTo then Inr vm
             else
               let from = ''0x'' @ toLowerCase (drop 26 (the topicFrom));
                   to = ''0x'' @ toLowerCase (drop 26 (the topicTo))
               in case hexToBigInt (data log) of
                    Inl err \<Rightarrow> Inl err
                  | Inr valueBig \<Rightarrow>
                      Inr (addFlows (c2p from) (c2p to) (weiToMon valueBig 18) vm))"

fun processLogs :: "(string \<rightharpoonup> string) \<Rightarrow> volumeMap \<Rightarrow> Log list \<Rightarrow> error + volumeMap" where
  "processLogs c2p vm [] = Inr vm"
| "processLogs c2p vm (log # logs) =
     (case processLog c2p vm log of
        Inl err \<Rightarrow> Inl err
      | Inr vm' \<Rightarrow> processLogs c2p vm' logs)"

definition flowEntry :: "string \<times> number \<Rightarrow> FlowEntry" where
  "flowEntry kv =
     (let parts = split ''|||'' (fst kv)
      in \<lparr>source = nthOpt parts 0, target = nthOpt parts 1, volume = snd kv\<rparr>)"

text \<open>
  \<open>buildFlowsForPeriod\<close>, from the logs that the fetch returned and the time stamp
  that \<open>new Date().toISOString()\<close> gives.
\<close>

definition buildFlowsForPeriod :: "ProtocolsFile \<Rightarrow> Log list \<Rightarrow> string \<Rightarrow> error + FlowFile" where
  "buildFlowsForPeriod protocols logs now =
     (case processLogs (contractToProtocol protocols) [] logs of
        Inl err \<Rightarrow> Inl err
      | Inr vm \<Rightarrow>
          let flws = map flowEntry vm;
              total = foldl (\<lambda>sum f. fadd sum (volume f)) zeroNum flws
          in Inr \<lparr>period = ''raw'', lastUpdated = now, totalVolume = total, flows = flws\<rparr>)"

subsection \<open>Concrete runs\<close>

text \<open>
  A registry with one protocol, and Transfer logs between a wallet and its contract
  (the registry gives the address in upper case, the topics pad it to 32 bytes).
\<close>

definition alphaProtocols :: ProtocolsFile where
  "alphaProtocols =
     [(''Alpha'', \<lparr>contracts = Some [''0xAAAAAAAAAAAAAAAAAAAAAAAAAAAAAAAAAAAAAAAA''],
                   category = None\<rparr>)]"

definition walletTopic :: string where
  "walletTopic = ''0x0000000000000000000000001111111111111111111111111111111111111111''"

definition alphaTopic :: string where
  "alphaTopic = ''0x000000000000000000000000aaaaaaaaaaaaaaaaaaaaaaaaaaaaaaaaaaaaaaaa''"

definition transferLog :: "string \<Rightarrow> string \<Rightarrow> string \<Rightarrow> Log" where
  "transferLog topicFrom topicTo amount =
     \<lparr>address = ''0x760afe86e5de5fa0ee542fc7b7b713e1c5425701'',
      topics = [TRANSFER_TOPIC, topicFrom, topicTo],
      data = amount, blockNumber = ''0x1'', transactionHash = ''0x2''\<rparr>"


text \<open>A log record that carries no topic at all.\<close>

definition topiclessLog :: Log where
  "topiclessLog =
     \<lparr>address = ''0x760afe86e5de5fa0ee542fc7b7b713e1c5425701'', topics = [],
      data = ''0x'', blockNumber = ''0x1'', transactionHash = ''0x2''\<rparr>"

text \<open>A registry in which one protocol name contains the key separator.\<close>

definition separatorProtocols :: ProtocolsFile where
  "separatorProtocols =
     [(''A'', \<lparr>contracts = Some [''0xAAAAAAAAAAAAAAAAAAAAAAAAAAAAAAAAAAAAAAAA''],
               category = None\<rparr>),
      (''A|||B'', \<lparr>contracts = Some [''0xBBBBBBBBBBBBBBBBBBBBBBBBBBBBBBBBBBBBBBBB''],
                   category = None\<rparr>)]"

definition betaTopic :: string where
  "betaTopic = ''0x000000000000000000000000bbbbbbbbbbbbbbbbbbbbbbbbbbbbbbbbbbbbbbbb''"

text \<open>
  The edge key and the volume that one log adds: the arguments of the single
  \<open>addFlow\<close> call of its iteration, when that call passes the guard on the volume.
  \<open>contributions c2p logs key\<close> lists, in the order of the logs, the volumes added
  to one key.
\<close>

definition logFlow :: "(string \<rightharpoonup> string) \<Rightarrow> Log \<Rightarrow> (string \<times> number) option" where
  "logFlow c2p log =
     (case processLog c2p [] log of
        Inr [(key, acc)] \<Rightarrow>
          (case hexToBigInt (data log) of
             Inl err \<Rightarrow> None
           | Inr valueBig \<Rightarrow> Some (key, weiToMon valueBig 18))
      | _ \<Rightarrow> None)"

definition contributions :: "(string \<rightharpoonup> string) \<Rightarrow> Log list \<Rightarrow> string \<Rightarrow> number list" where
  "contributions c2p logs key =
     map snd (filter (\<lambda>kv. fst kv = key) (List.map_filter (logFlow c2p) logs))"

text \<open>The edges of a report, as pairs of source and target.\<close>

definition edges :: "FlowFile \<Rightarrow> (string option \<times> string option) set" where
  "edges report = (\<lambda>f. (source f, target f)) ` set (flows report)"


text \<open>The numbers \<open>1\<close>, \<open>2\<close>, \<open>3\<close> and \<open>5\<close>.\<close>

definition oneNum :: number where
  "oneNum = Finite False (2 ^ 52) (- 52)"

definition twoNum :: number where
  "twoNum = Finite False (2 ^ 52) (- 51)"

definition threeNum :: number where
  "threeNum = Finite False (3 * 2 ^ 51) (- 51)"

definition fiveNum :: number where
  "fiveNum = Finite False (5 * 2 ^ 50) (- 50)"

section \<open>Properties of the number model\<close>

lemma bitLength_0 [simp]: "bitLength 0 = 0"
  by (simp add: bitLength.simps)

lemma bitLength_bounds:
  "0 < n \<Longrightarrow> 2 ^ (bitLength n - 1) \<le> n \<and> n < 2 ^ bitLength n"
proof (induction n rule: bitLength.induct)
  case (1 n)
  show ?case
  proof (cases "n div 2 = 0")
    case True
    with "1.prems" have "n = 1" by presburger
    then show ?thesis by (simp add: bitLength.simps)
  next
    case False
    then have pos: "0 < n div 2" by simp
    from "1.IH" [OF _ pos] "1.prems"
    have ih: "2 ^ (bitLength (n div 2) - 1) \<le> n div 2" "n div 2 < 2 ^ bitLength (n div 2)"
      by auto
    have bl: "bitLength n = Suc (bitLength (n div 2))"
      using "1.prems" by (subst bitLength.simps) simp
    have pos': "0 < bitLength (n div 2)"
      using pos by (subst bitLength.simps) simp
    then obtain j where j: "bitLength (n div 2) = Suc j"
      by (cases "bitLength (n div 2)") auto
    from ih j have "2 * 2 ^ j \<le> 2 * (n div 2)" by simp
    also have "\<dots> \<le> n" by presburger
    finally have lo: "2 ^ (bitLength n - 1) \<le> n" by (simp add: bl j)
    from ih have "n div 2 + 1 \<le> 2 ^ bitLength (n div 2)" by simp
    then have "2 * (n div 2) + 2 \<le> 2 * 2 ^ bitLength (n div 2)" by simp
    moreover have "n < 2 * (n div 2) + 2" by presburger
    ultimately have hi: "n < 2 ^ bitLength n" by (simp add: bl)
    from lo hi show ?thesis ..
  qed
qed

lemma bitLength_pos: "0 < n \<Longrightarrow> 0 < bitLength n"
  by (subst bitLength.simps) simp

lemma bitLength_one [simp]: "bitLength (Suc 0) = 1"
  by (simp add: bitLength.simps)

lemma ilog2_one: "0 < p \<Longrightarrow> ilog2 p (Suc 0) = int (bitLength p) - 1"
  using bitLength_bounds [of p] bitLength_pos [of p]
  by (auto simp: ilog2_def Let_def nat_diff_distrib)

lemma roundHalfEven_ge: "p div q \<le> roundHalfEven p q"
  by (simp add: roundHalfEven_def Let_def)

lemma roundHalfEven_pos: "0 < q \<Longrightarrow> q \<le> p \<Longrightarrow> 0 < roundHalfEven p q"
proof -
  assume "0 < q" "q \<le> p"
  then have "0 < p div q" by (simp add: div_greater_zero_iff)
  with roundHalfEven_ge [of p q] show ?thesis by linarith
qed

lemma roundHalfEven_exact [simp]: "roundHalfEven p 1 = p" "roundHalfEven p (Suc 0) = p"
  by (simp_all add: roundHalfEven_def)

lemma roundFloat_cases:
  "roundFloat sg p q k = Infinity sg \<or> (\<exists>m e. roundFloat sg p q k = Finite sg m e \<and> - 1074 \<le> e)"
proof -
  have "- 1074 \<le> max (ilog2 p q + k) (- 1022) - 52" by simp
  then show ?thesis
    unfolding roundFloat_def Let_def by (simp del: max.bounded_iff)
qed

lemma roundFloat_pos:
  assumes "0 < p" and "- 1074 \<le> k"
  shows "roundFloat sg p 1 k = Infinity sg
    \<or> (\<exists>m e. roundFloat sg p 1 k = Finite sg m e \<and> 0 < m \<and> - 1074 \<le> e)"
proof -
  define e where "e = max (ilog2 p 1 + k) (- 1022)"
  define t where "t = e - 52"
  define m where "m = (if t \<le> k then roundHalfEven (p * 2 ^ nat (k - t)) 1
                 else roundHalfEven p (1 * 2 ^ nat (t - k)))"
  have t: "- 1074 \<le> t" by (simp add: t_def e_def)
  have "0 < m"
  proof (cases "t \<le> k")
    case True
    then show ?thesis using assms by (simp add: m_def)
  next
    case False
    with assms have "- 1022 < e" by (simp add: t_def)
    then have e: "e = int (bitLength p) - 1 + k"
      using assms by (simp add: e_def ilog2_one max_def split: if_splits)
    from False have "nat (t - k) \<le> bitLength p - 1"
      by (simp add: t_def e)
    then have "(2::nat) ^ nat (t - k) \<le> 2 ^ (bitLength p - 1)"
      by (rule power_increasing) simp
    also have "\<dots> \<le> p" using bitLength_bounds [OF assms(1)] by simp
    finally have "2 ^ nat (t - k) \<le> p" .
    then have "0 < roundHalfEven p (2 ^ nat (t - k))"
      by (intro roundHalfEven_pos) simp_all
    with False show ?thesis by (simp add: m_def)
  qed
  moreover have "roundFloat sg p 1 k =
      (if m = 2 ^ 53
       then (if 971 < t + 1 then Infinity sg else Finite sg (2 ^ 52) (t + 1))
       else (if 971 < t then Infinity sg else Finite sg m t))"
  proof -
    from assms have "p \<noteq> 0" by simp
    then show ?thesis
      unfolding roundFloat_def Let_def m_def t_def e_def by (simp only: if_False)
  qed
  ultimately show ?thesis using t by auto
qed


lemma roundFloat_nonneg: "nonnegNum (roundFloat False p q k)"
  using roundFloat_cases [of False p q k] by auto

lemma roundFloat_nonpos: "sg \<or> p = 0 \<Longrightarrow> nonposNum (roundFloat sg p q k)"
  using roundFloat_cases [of sg p q k] by (cases "p = 0") (auto simp: roundFloat_def)

lemma roundFloat_posNum: "0 < p \<Longrightarrow> - 1074 \<le> k \<Longrightarrow> posNum (roundFloat False p 1 k)"
  using roundFloat_pos [of p k False] by auto

lemma Number_nonneg: "0 \<le> i \<Longrightarrow> nonnegNum (Number i)"
  by (simp add: Number_def roundFloat_nonneg)

lemma Number_nonpos: "i \<le> 0 \<Longrightarrow> nonposNum (Number i)"
  unfolding Number_def by (rule roundFloat_nonpos) auto

lemma Number_pos: "0 < i \<Longrightarrow> posNum (Number i)"
  unfolding Number_def using roundFloat_posNum [of "nat \<bar>i\<bar>" 0] by simp

lemma scaled_le_zero [simp]: "int m * 2 ^ n \<le> 0 \<longleftrightarrow> m = 0"
  by (simp add: mult_le_0_iff)

lemma fadd_nonneg: "nonnegNum x \<Longrightarrow> nonnegNum y \<Longrightarrow> nonnegNum (fadd x y)"
proof (induction x y rule: fadd.induct)
  case (1 s1 m1 e1 s2 m2 e2)
  define a where "a = (if s1 then - 1 else 1) * int m1 * 2 ^ nat (e1 - min e1 e2)"
  define b where "b = (if s2 then - 1 else 1) * int m2 * 2 ^ nat (e2 - min e1 e2)"
  from "1.prems" have "0 \<le> a" "0 \<le> b"
    by (auto simp: a_def b_def)
  then have "\<not> a + b < 0" by linarith
  moreover have "fadd (Finite s1 m1 e1) (Finite s2 m2 e2) =
      (if a + b = 0 then Finite (s1 \<and> s2) 0 (- 1074)
       else roundFloat (a + b < 0) (nat \<bar>a + b\<bar>) 1 (min e1 e2))"
    by (simp add: Let_def a_def b_def)
  ultimately show ?case using "1.prems" by (simp add: roundFloat_nonneg del: fadd.simps)
qed simp_all

lemma fadd_nonpos: "nonposNum x \<Longrightarrow> nonposNum y \<Longrightarrow> nonposNum (fadd x y)"
proof (induction x y rule: fadd.induct)
  case (1 s1 m1 e1 s2 m2 e2)
  define a where "a = (if s1 then - 1 else 1) * int m1 * 2 ^ nat (e1 - min e1 e2)"
  define b where "b = (if s2 then - 1 else 1) * int m2 * 2 ^ nat (e2 - min e1 e2)"
  from "1.prems" have "a \<le> 0" "b \<le> 0"
    by (auto simp: a_def b_def mult_le_0_iff)
  then have "a + b = 0 \<or> a + b < 0" by linarith
  moreover have "fadd (Finite s1 m1 e1) (Finite s2 m2 e2) =
      (if a + b = 0 then Finite (s1 \<and> s2) 0 (- 1074)
       else roundFloat (a + b < 0) (nat \<bar>a + b\<bar>) 1 (min e1 e2))"
    by (simp add: Let_def a_def b_def)
  ultimately show ?case by (auto intro: roundFloat_nonpos simp del: fadd.simps)
qed simp_all

lemma fadd_pos: "nonnegNum x \<Longrightarrow> posNum y \<Longrightarrow> posNum (fadd x y)"
proof (induction x y rule: fadd.induct)
  case (1 s1 m1 e1 s2 m2 e2)
  define a where "a = (if s1 then - 1 else 1) * int m1 * 2 ^ nat (e1 - min e1 e2)"
  define b where "b = (if s2 then - 1 else 1) * int m2 * 2 ^ nat (e2 - min e1 e2)"
  from "1.prems" have "0 \<le> a" "0 < b"
    by (auto simp: a_def b_def)
  then have ab: "0 < a + b" by linarith
  moreover have "fadd (Finite s1 m1 e1) (Finite s2 m2 e2) =
      (if a + b = 0 then Finite (s1 \<and> s2) 0 (- 1074)
       else roundFloat (a + b < 0) (nat \<bar>a + b\<bar>) 1 (min e1 e2))"
    by (simp add: Let_def a_def b_def)
  moreover have "- 1074 \<le> min e1 e2" using "1.prems" by simp
  ultimately show ?case
    using roundFloat_posNum [of "nat \<bar>a + b\<bar>" "min e1 e2"] by (simp del: fadd.simps)
qed simp_all

lemma fdiv_nonneg:
  "nonnegNum x \<Longrightarrow> posNum y \<Longrightarrow> y \<noteq> Infinity False \<Longrightarrow> nonnegNum (fdiv x y)"
  by (induction x y rule: fdiv.induct) (simp_all add: roundFloat_nonneg)

lemma fdiv_nonpos:
  "nonposNum x \<Longrightarrow> posNum y \<Longrightarrow> y \<noteq> Infinity False \<Longrightarrow> nonposNum (fdiv x y)"
  by (induction x y rule: fdiv.induct) (auto intro: roundFloat_nonpos)

lemma nonposNum_fle: "nonposNum x \<Longrightarrow> fle x zeroNum"
  by (cases x) (auto simp: zeroNum_def Let_def mult_le_0_iff)

lemma nonnegNum_fle: "nonnegNum x \<Longrightarrow> fle zeroNum x"
  by (cases x) (auto simp: zeroNum_def Let_def)

lemma nonnegNum_posNum: "nonnegNum x \<Longrightarrow> \<not> fle x zeroNum \<Longrightarrow> posNum x"
  by (cases x) (auto simp: zeroNum_def Let_def)

lemma posNum_nonnegNum: "posNum x \<Longrightarrow> nonnegNum x"
  by (cases x) auto

lemma posNum_flt: "posNum x \<Longrightarrow> flt zeroNum x"
  by (cases x) (auto simp: flt_def zeroNum_def Let_def min_def)

lemma posNum_numTruthy: "posNum x \<Longrightarrow> numTruthy x"
  by (cases x) auto

lemma bitLength_numeral [simp]:
  "bitLength (numeral Num.One) = 1"
  "bitLength (numeral (Num.Bit0 n)) = Suc (bitLength (numeral n))"
  "bitLength (numeral (Num.Bit1 n)) = Suc (bitLength (numeral n))"
proof -
  show "bitLength (numeral Num.One) = 1" by simp
  have "numeral (Num.Bit0 n) div (2::nat) = numeral n" by simp
  then show "bitLength (numeral (Num.Bit0 n)) = Suc (bitLength (numeral n))"
    by (subst bitLength.simps) simp
  have "numeral (Num.Bit1 n) div (2::nat) = numeral n" by simp
  then show "bitLength (numeral (Num.Bit1 n)) = Suc (bitLength (numeral n))"
    by (subst bitLength.simps) simp
qed

text \<open>Unfolding these evaluates the definitions on literals.\<close>

lemmas float_eval = Number_def roundFloat_def ilog2_def roundHalfEven_def Let_def zeroNum_def

lemmas string_eval = toLowerCase_def lowerChar_def split_def nthOpt_def

lemmas bigint_eval = hexToBigInt_def BigInt_def trim_def isWhiteSpace_def parseNat_def
  digitVal_def lowerChar_def bigDiv_def bigRem_def

subsection \<open>Known values\<close>

text \<open>
  The model on values whose binary64 form is well known: \<open>2\<^sup>5\<^sup>3 + 1\<close> is a tie and goes
  to the even neighbour, \<open>1 / 3\<close> and \<open>0.1 + 0.2\<close> round as every binary64
  implementation does, \<open>2\<^sup>1\<^sup>0\<^sup>2\<^sup>4 - 2\<^sup>9\<^sup>7\<^sup>0\<close> is the least integer that overflows, and half of
  the least subnormal is a tie that goes to zero.
\<close>

lemma known_values:
  "Number (2 ^ 53 + 1) = Finite False (2 ^ 52) 1"
  "Number (2 ^ 53 + 3) = Finite False (2 ^ 52 + 2) 1"
  "fdiv (Number 1) (Number 3) = Finite False 6004799503160661 (- 54)"
  "fdiv (Number 1) (Number 10) = Finite False 7205759403792794 (- 56)"
  "fadd (Finite False 7205759403792794 (- 56)) (Finite False 7205759403792794 (- 55))
     = Finite False 5404319552844596 (- 54)"
  "Number (2 ^ 1024 - 2 ^ 970 - 1) = Finite False (2 ^ 53 - 1) 971"
  "Number (2 ^ 1024 - 2 ^ 970) = Infinity False"
  "Number (- (2 ^ 1024)) = Infinity True"
  "fdiv (Finite False 1 (- 1074)) (Number 2) = Finite False 0 (- 1074)"
  "fdiv (Finite False 3 (- 1074)) (Number 2) = Finite False 2 (- 1074)"
  "fadd (Number (- 1)) (Number 1) = Finite False 0 (- 1074)"
  by (simp_all add: float_eval)

section \<open>Amount conversion\<close>

lemma bigDiv_nonneg: "0 \<le> a \<Longrightarrow> 0 < b \<Longrightarrow> 0 \<le> bigDiv a b"
  by (simp add: bigDiv_def zero_le_mult_iff pos_imp_zdiv_nonneg_iff sgn_if)

lemma bigRem_nonneg: "0 \<le> a \<Longrightarrow> 0 < b \<Longrightarrow> 0 \<le> bigRem a b"
  by (simp add: bigRem_def sgn_if)

lemma bigDiv_nonpos: "a \<le> 0 \<Longrightarrow> 0 < b \<Longrightarrow> bigDiv a b \<le> 0"
  by (simp add: bigDiv_def sgn_if pos_imp_zdiv_nonneg_iff)

lemma bigRem_nonpos: "a \<le> 0 \<Longrightarrow> 0 < b \<Longrightarrow> bigRem a b \<le> 0"
  by (simp add: bigRem_def sgn_if)

lemma bigDiv_nonneg_eq: "0 \<le> a \<Longrightarrow> 0 < b \<Longrightarrow> bigDiv a b = a div b"
  by (simp add: bigDiv_def sgn_if)

lemma bigRem_nonneg_eq: "0 \<le> a \<Longrightarrow> 0 < b \<Longrightarrow> bigRem a b = a mod b"
  by (simp add: bigRem_def sgn_if)

lemma Number_base_pos: "posNum (Number (10 ^ d))"
  by (rule Number_pos) simp

lemma weiToMon_nonneg:
  assumes "0 \<le> v" and "Number (10 ^ d) \<noteq> Infinity False"
  shows "nonnegNum (weiToMon v d)"
proof (cases "v = 0")
  case True
  then show ?thesis by (simp add: weiToMon_def zeroNum_def)
next
  case False
  have "nonnegNum (fdiv (Number (bigRem v (10 ^ d))) (Number (10 ^ d)))"
    using assms by (intro fdiv_nonneg Number_nonneg bigRem_nonneg Number_base_pos) simp_all
  then have "nonnegNum (fadd (Number (bigDiv v (10 ^ d)))
      (fdiv (Number (bigRem v (10 ^ d))) (Number (10 ^ d))))"
    using assms by (intro fadd_nonneg Number_nonneg bigDiv_nonneg) simp_all
  with False show ?thesis by (simp add: weiToMon_def Let_def)
qed

lemma weiToMon_nonpos:
  assumes "v \<le> 0" and "Number (10 ^ d) \<noteq> Infinity False"
  shows "nonposNum (weiToMon v d)"
proof (cases "v = 0")
  case True
  then show ?thesis by (simp add: weiToMon_def zeroNum_def)
next
  case False
  have "nonposNum (fdiv (Number (bigRem v (10 ^ d))) (Number (10 ^ d)))"
    using assms by (intro fdiv_nonpos Number_nonpos bigRem_nonpos Number_base_pos) simp_all
  then have "nonposNum (fadd (Number (bigDiv v (10 ^ d)))
      (fdiv (Number (bigRem v (10 ^ d))) (Number (10 ^ d))))"
    using assms by (intro fadd_nonpos Number_nonpos bigDiv_nonpos) simp_all
  with False show ?thesis by (simp add: weiToMon_def Let_def)
qed

lemma Number_base18: "Number (10 ^ 18) = Finite False 7812500000000000 7"
  by (simp add: float_eval)

lemma weiToMon18_guard: "\<not> fle (weiToMon v 18) zeroNum \<Longrightarrow> posNum (weiToMon v 18)"
proof -
  assume g: "\<not> fle (weiToMon v 18) zeroNum"
  have fin: "Number (10 ^ 18) \<noteq> Infinity False" by (simp only: Number_base18) simp
  have "\<not> v \<le> 0"
    using g weiToMon_nonpos [OF _ fin, of v] nonposNum_fle by blast
  then have "nonnegNum (weiToMon v 18)"
    using weiToMon_nonneg [OF _ fin, of v] by simp
  with g show ?thesis by (simp add: nonnegNum_posNum)
qed

section \<open>Flow aggregation\<close>

lemma set_mapSet: "set (mapSet k v vm) \<subseteq> insert (k, v) (set vm)"
  by (induction vm) auto

lemma addFlow_positive:
  assumes "\<not> fle vol zeroNum \<Longrightarrow> posNum vol" and "\<forall>kv\<in>set vm. posNum (snd kv)"
  shows "\<forall>kv\<in>set (addFlow src tgt vol vm). posNum (snd kv)"
proof (cases "fle vol zeroNum")
  case True
  with assms(2) show ?thesis by (simp add: addFlow_def)
next
  case False
  define key where "key = src @ ''|||'' @ tgt"
  define prev where "prev = (case map_of vm key of None \<Rightarrow> zeroNum
                             | Some x \<Rightarrow> if numTruthy x then x else zeroNum)"
  have "nonnegNum prev"
  proof (cases "map_of vm key")
    case None
    then show ?thesis by (simp add: prev_def zeroNum_def)
  next
    case (Some x)
    then have "(key, x) \<in> set vm" by (rule map_of_SomeD)
    with assms(2) have "posNum x" by auto
    with Some show ?thesis by (simp add: prev_def posNum_numTruthy posNum_nonnegNum)
  qed
  with False assms(1) have "posNum (fadd prev vol)" by (intro fadd_pos) simp_all
  moreover from False have "addFlow src tgt vol vm = mapSet key (fadd prev vol) vm"
    by (simp add: addFlow_def key_def prev_def Let_def)
  ultimately show ?thesis using set_mapSet [of key "fadd prev vol" vm] assms(2) by auto
qed

lemma addFlows_positive:
  assumes "\<not> fle vol zeroNum \<Longrightarrow> posNum vol" and "\<forall>kv\<in>set vm. posNum (snd kv)"
  shows "\<forall>kv\<in>set (addFlows fromProt toProt vol vm). posNum (snd kv)"
proof -
  have step: "\<forall>kv\<in>set (addFlow s t vol m). posNum (snd kv)"
    if "\<forall>kv\<in>set m. posNum (snd kv)" for s t m
    using assms(1) that by (rule addFlow_positive)
  show ?thesis
    unfolding addFlows_def Let_def using assms(2) by (auto intro!: step)
qed

lemma processLog_cases:
  assumes "processLog c2p vm log = Inr vm'"
  obtains "vm' = vm"
  | a b valueBig where "vm' = addFlows (c2p a) (c2p b) (weiToMon valueBig 18) vm"
  using assms
  by (auto simp: processLog_def Let_def split: option.splits if_splits sum.splits)

lemma processLog_positive:
  assumes "processLog c2p vm log = Inr vm'" and "\<forall>kv\<in>set vm. posNum (snd kv)"
  shows "\<forall>kv\<in>set vm'. posNum (snd kv)"
  using assms(1)
proof (cases rule: processLog_cases)
  case 1
  with assms(2) show ?thesis by simp
next
  case (2 a b valueBig)
  then show ?thesis
    using addFlows_positive [OF weiToMon18_guard assms(2)] by simp
qed

lemma processLogs_positive:
  "processLogs c2p vm logs = Inr vm' \<Longrightarrow> \<forall>kv\<in>set vm. posNum (snd kv)
     \<Longrightarrow> \<forall>kv\<in>set vm'. posNum (snd kv)"
proof (induction logs arbitrary: vm)
  case Nil
  then show ?case by simp
next
  case (Cons log logs)
  then show ?case
    by (auto split: sum.splits dest: processLog_positive)
qed

subsection \<open>A run with one transfer into a protocol\<close>

lemma alpha_index:
  "contractToProtocol alphaProtocols = [''0xaaaaaaaaaaaaaaaaaaaaaaaaaaaaaaaaaaaaaaaa'' \<mapsto> ''Alpha'']"
  by (simp add: contractToProtocol_def contractsOrEmpty_def alphaProtocols_def string_eval)

lemma weiToMon_one: "weiToMon 1000000000000000000 18 = oneNum"
  by (simp add: weiToMon_def bigint_eval float_eval oneNum_def)
lemma weiToMon_two: "weiToMon 2000000000000000000 18 = twoNum"
  by (simp add: weiToMon_def bigint_eval float_eval twoNum_def)
lemma weiToMon_three: "weiToMon 3000000000000000000 18 = threeNum"
  by (simp add: weiToMon_def bigint_eval float_eval threeNum_def)

lemma fadd_two_three: "fadd twoNum threeNum = fiveNum"
  by (simp add: twoNum_def threeNum_def fiveNum_def float_eval)
lemma fadd_zero_two: "fadd zeroNum twoNum = twoNum"
  by (simp add: twoNum_def float_eval)
lemma fadd_zero_one: "fadd zeroNum oneNum = oneNum"
  by (simp add: oneNum_def float_eval)

lemma wallet_to_alpha:
  "BigInt amount = Inr v \<Longrightarrow> amount \<noteq> [] \<Longrightarrow> amount \<noteq> ''0x'' \<Longrightarrow>
   processLog (contractToProtocol alphaProtocols) vm (transferLog walletTopic alphaTopic amount)
   = Inr (addFlow ''Wallets'' ''Alpha'' (weiToMon v 18) vm)"
  by (simp add: alpha_index processLog_def transferLog_def walletTopic_def alphaTopic_def
      TRANSFER_TOPIC_def string_eval hexToBigInt_def addFlows_def)

lemma amount_one: "BigInt ''0xde0b6b3a7640000'' = Inr 1000000000000000000"
  by (simp add: bigint_eval)
lemma amount_two: "BigInt ''0x1bc16d674ec80000'' = Inr 2000000000000000000"
  by (simp add: bigint_eval)
lemma amount_three: "BigInt ''0x29a2241af62c0000'' = Inr 3000000000000000000"
  by (simp add: bigint_eval)

lemma scenarioA:
  "buildFlowsForPeriod alphaProtocols [transferLog walletTopic alphaTopic ''0xde0b6b3a7640000''] now
   = Inr \<lparr>period = ''raw'', lastUpdated = now, totalVolume = oneNum,
       flows = [\<lparr>source = Some ''Wallets'', target = Some ''Alpha'', volume = oneNum\<rparr>]\<rparr>"
  by (simp add: buildFlowsForPeriod_def wallet_to_alpha [OF amount_one] weiToMon_one
      addFlow_def fadd_zero_one flowEntry_def string_eval)
     (simp add: oneNum_def zeroNum_def Let_def)

text \<open>
  C3. Every edge in the flows list of a report has a volume strictly above zero: the
  guard of \<open>addFlow\<close> lets only volumes above zero in, and a floating-point sum of
  such volumes stays above zero (it may reach \<open>Infinity\<close>).
\<close>

theorem flows_strictly_positive:
  assumes "buildFlowsForPeriod protocols logs now = Inr report"
  shows "\<forall>f\<in>set (flows report). flt zeroNum (volume f)"
proof -
  from assms obtain vm where vm: "processLogs (contractToProtocol protocols) [] logs = Inr vm"
    and fl: "flows report = map flowEntry vm"
    by (auto simp: buildFlowsForPeriod_def Let_def split: sum.splits)
  from processLogs_positive [OF vm] have "\<forall>kv\<in>set vm. posNum (snd kv)" by simp
  then show ?thesis by (auto simp: fl flowEntry_def Let_def intro: posNum_flt)
qed


theorem flows_strictly_positive_witness:
  "buildFlowsForPeriod alphaProtocols
       [transferLog walletTopic alphaTopic ''0xde0b6b3a7640000''] ''2026-01-01T00:00:00.000Z''
     = Inr \<lparr>period = ''raw'', lastUpdated = ''2026-01-01T00:00:00.000Z'', totalVolume = oneNum,
         flows = [\<lparr>source = Some ''Wallets'', target = Some ''Alpha'', volume = oneNum\<rparr>]\<rparr>
   \<and> flt zeroNum oneNum"
  using flows_strictly_positive [OF scenarioA [of "''2026-01-01T00:00:00.000Z''"]]
  by (simp add: scenarioA)

subsection \<open>The total volume\<close>

lemma scenarioB:
  "buildFlowsForPeriod alphaProtocols
     [transferLog walletTopic alphaTopic ''0x1bc16d674ec80000'',
      transferLog walletTopic alphaTopic ''0x29a2241af62c0000''] now
   = Inr \<lparr>period = ''raw'', lastUpdated = now, totalVolume = fiveNum,
       flows = [\<lparr>source = Some ''Wallets'', target = Some ''Alpha'', volume = fiveNum\<rparr>]\<rparr>"
proof -
  have a: "addFlow ''Wallets'' ''Alpha'' twoNum [] = [(''Wallets|||Alpha'', twoNum)]"
    by (simp add: addFlow_def fadd_zero_two) (simp add: twoNum_def zeroNum_def Let_def)
  have b: "addFlow ''Wallets'' ''Alpha'' threeNum [(''Wallets|||Alpha'', twoNum)]
      = [(''Wallets|||Alpha'', fiveNum)]"
    by (simp add: addFlow_def) (simp add: twoNum_def threeNum_def fiveNum_def float_eval)
  have c: "fadd zeroNum fiveNum = fiveNum"
    by (simp add: fiveNum_def float_eval)
  show ?thesis
    by (simp add: buildFlowsForPeriod_def wallet_to_alpha [OF amount_two]
        wallet_to_alpha [OF amount_three] weiToMon_two weiToMon_three a b c
        flowEntry_def string_eval)
qed

text \<open>
  C4. The total volume of a report is the sum of the volumes of its edges, which are
  the accumulated volumes left in \<open>volumeMap\<close> once every log is processed: one
  left-to-right pass over the finished edges, starting from \<open>0\<close>.
\<close>

theorem totalVolume_is_sum_of_flows:
  assumes "buildFlowsForPeriod protocols logs now = Inr report"
  shows "\<exists>vm. processLogs (contractToProtocol protocols) [] logs = Inr vm
           \<and> map volume (flows report) = map snd vm
           \<and> totalVolume report = foldl fadd zeroNum (map volume (flows report))"
proof -
  from assms obtain vm where vm: "processLogs (contractToProtocol protocols) [] logs = Inr vm"
    and r: "report = \<lparr>period = ''raw'', lastUpdated = now,
        totalVolume = foldl (\<lambda>sum f. fadd sum (volume f)) zeroNum (map flowEntry vm),
        flows = map flowEntry vm\<rparr>"
    by (auto simp: buildFlowsForPeriod_def Let_def split: sum.splits)
  have "map volume (flows report) = map snd vm"
    by (simp add: r flowEntry_def Let_def comp_def)
  moreover have "totalVolume report = foldl fadd zeroNum (map volume (flows report))"
    by (simp add: r foldl_map)
  ultimately show ?thesis using vm by blast
qed

theorem totalVolume_is_sum_of_flows_witness:
  "buildFlowsForPeriod alphaProtocols
     [transferLog walletTopic alphaTopic ''0x1bc16d674ec80000'',
      transferLog walletTopic alphaTopic ''0x29a2241af62c0000''] ''2026-01-01T00:00:00.000Z''
   = Inr \<lparr>period = ''raw'', lastUpdated = ''2026-01-01T00:00:00.000Z'', totalVolume = fiveNum,
       flows = [\<lparr>source = Some ''Wallets'', target = Some ''Alpha'', volume = fiveNum\<rparr>]\<rparr>
   \<and> fiveNum = foldl fadd zeroNum [fiveNum]"
proof -
  from totalVolume_is_sum_of_flows [OF scenarioB [of "''2026-01-01T00:00:00.000Z''"]]
  have "fiveNum = foldl fadd zeroNum [fiveNum]"
    by (elim exE conjE) simp
  then show ?thesis by (simp only: scenarioB simp_thms)
qed

section \<open>The reverse index\<close>

lemma inner_index:
  "foldl (\<lambda>m addr. m(toLowerCase addr \<mapsto> name)) m cs a
     = (if a \<in> toLowerCase ` set cs then Some name else m a)"
  by (induction cs arbitrary: m) auto

lemma outer_index:
  "foldl (\<lambda>m (name, cfg).
            foldl (\<lambda>m addr. m(toLowerCase addr \<mapsto> name)) m (contractsOrEmpty cfg)) m ps a
     = (case find (\<lambda>(name, cfg). a \<in> toLowerCase ` set (contractsOrEmpty cfg)) (rev ps) of
          None \<Rightarrow> m a
        | Some p \<Rightarrow> Some (fst p))"
proof (induction ps rule: rev_induct)
  case Nil
  show ?case by simp
next
  case (snoc p ps)
  let ?step = "\<lambda>m (name, cfg).
      foldl (\<lambda>m addr. m(toLowerCase addr \<mapsto> name)) m (contractsOrEmpty cfg)"
  let ?P = "\<lambda>(name, cfg). a \<in> toLowerCase ` set (contractsOrEmpty cfg)"
  obtain name cfg where p: "p = (name, cfg)" by (cases p)
  have "foldl ?step m (ps @ [p]) a
      = foldl (\<lambda>m addr. m(toLowerCase addr \<mapsto> name)) (foldl ?step m ps) (contractsOrEmpty cfg) a"
    by (simp only: p foldl_append foldl.simps prod.case)
  also have "\<dots> = (if a \<in> toLowerCase ` set (contractsOrEmpty cfg) then Some name
                    else foldl ?step m ps a)"
    by (rule inner_index)
  also have "\<dots> = (if a \<in> toLowerCase ` set (contractsOrEmpty cfg) then Some name
                    else (case find ?P (rev ps) of None \<Rightarrow> m a | Some p \<Rightarrow> Some (fst p)))"
    by (simp only: snoc.IH)
  also have "\<dots> = (case find ?P (rev (ps @ [p])) of None \<Rightarrow> m a | Some p \<Rightarrow> Some (fst p))"
    by (simp add: p)
  finally show ?case .
qed

lemma contractToProtocol_names: "ran (contractToProtocol protocols) \<subseteq> fst ` set protocols"
proof
  fix name
  assume "name \<in> ran (contractToProtocol protocols)"
  then obtain a where "contractToProtocol protocols a = Some name"
    by (auto simp: ran_def)
  then obtain p where f: "find (\<lambda>(name, cfg). a \<in> toLowerCase ` set (contractsOrEmpty cfg))
      (rev protocols) = Some p" and n: "fst p = name"
    unfolding contractToProtocol_def outer_index by (auto split: option.splits)
  from f obtain i where i: "i < length (rev protocols)" and p: "p = rev protocols ! i"
    unfolding find_Some_iff by blast
  from i have "rev protocols ! i \<in> set (rev protocols)" by (rule nth_mem)
  with p have "p \<in> set protocols" by simp
  with n show "name \<in> fst ` set protocols"
    by auto
qed


section \<open>Loading the protocols\<close>

text \<open>
  C9. When \<open>protocols.json\<close> is absent the loader returns the empty registry and
  writes one warning; when the file holds text that \<open>JSON.parse\<close> rejects, the
  \<open>SyntaxError\<close> leaves the loader uncaught.
\<close>

theorem loadProtocols_absent_or_malformed:
  "(fs (dirname @ ''/protocols.json'') = None \<longrightarrow>
      loadProtocols jsonParse fs dirname
        = (Inr [], [''protocols.json not found, using empty config'']))
   \<and> (fs (dirname @ ''/protocols.json'') = Some (File raw) \<and> jsonParse raw = Inl SyntaxError \<longrightarrow>
      loadProtocols jsonParse fs dirname = (Inl SyntaxError, []))"
  by (simp add: loadProtocols_def Let_def)

theorem loadProtocols_absent_or_malformed_witness:
  "loadProtocols (\<lambda>s. if s = ''{}'' then Inr [] else Inl SyntaxError) Map.empty ''/app/scripts''
     = (Inr [], [''protocols.json not found, using empty config''])
   \<and> loadProtocols (\<lambda>s. if s = ''{}'' then Inr [] else Inl SyntaxError)
        [''/app/scripts/protocols.json'' \<mapsto> File ''{Alpha: ''] ''/app/scripts''
     = (Inl SyntaxError, [])"
  using loadProtocols_absent_or_malformed
      [where fs = Map.empty and dirname = "''/app/scripts''"
         and jsonParse = "\<lambda>s. if s = ''{}'' then Inr [] else Inl SyntaxError"]
    loadProtocols_absent_or_malformed
      [where fs = "[''/app/scripts/protocols.json'' \<mapsto> File ''{Alpha: '']"
         and dirname = "''/app/scripts''" and raw = "''{Alpha: ''"
         and jsonParse = "\<lambda>s. if s = ''{}'' then Inr [] else Inl SyntaxError"]
  by simp

section \<open>Block offsets\<close>

lemma indexOf_nth:
  "distinct xs \<Longrightarrow> d < length xs \<Longrightarrow> indexOf (xs ! d) (xs @ ys) = Some d"
proof (induction xs arbitrary: d)
  case Nil
  then show ?case by simp
next
  case (Cons x xs)
  show ?case
  proof (cases d)
    case 0
    then show ?thesis by simp
  next
    case (Suc j)
    with Cons.prems have "xs ! j \<in> set xs" "x \<notin> set xs" by auto
    then have "xs ! j \<noteq> x" by auto
    with Cons Suc show ?thesis by simp
  qed
qed

lemma hexChar_in: "d < 16 \<Longrightarrow> hexChar d \<in> set ''0123456789abcdef''"
  unfolding hexChar_def by (rule nth_mem) simp

lemma lowerChar_id: "c \<notin> set ''ABCDEFGHIJKLMNOPQRSTUVWXYZ'' \<Longrightarrow> lowerChar c = c"
proof -
  assume "c \<notin> set ''ABCDEFGHIJKLMNOPQRSTUVWXYZ''"
  then have "map_of (zip ''ABCDEFGHIJKLMNOPQRSTUVWXYZ'' ''abcdefghijklmnopqrstuvwxyz'') c = None"
    by (subst map_of_zip_is_None) simp_all
  then show ?thesis by (simp only: lowerChar_def option.case)
qed

lemma hex_not_upper: "c \<in> set ''0123456789abcdef'' \<Longrightarrow> c \<notin> set ''ABCDEFGHIJKLMNOPQRSTUVWXYZ''"
  by auto

lemma hex_not_space: "c \<in> set ''0123456789abcdef'' \<Longrightarrow> \<not> isWhiteSpace c"
  by (auto simp: isWhiteSpace_def)

lemma digitVal_hexChar: "d < 16 \<Longrightarrow> digitVal (hexChar d) = Some d"
proof -
  assume d: "d < 16"
  have "lowerChar (hexChar d) = hexChar d"
    using d by (intro lowerChar_id hex_not_upper hexChar_in)
  moreover have "indexOf (''0123456789abcdef'' ! d) (''0123456789abcdef'' @ ''ghijklmnopqrstuvwxyz'') = Some d"
    using d by (intro indexOf_nth) simp_all
  ultimately show ?thesis by (simp add: digitVal_def hexChar_def)
qed

lemma hexChar_not_space: "d < 16 \<Longrightarrow> \<not> isWhiteSpace (hexChar d)"
  by (intro hex_not_space hexChar_in)

lemma parseDigits_append:
  "parseDigits r acc (xs @ ys) =
     (case parseDigits r acc xs of None \<Rightarrow> None | Some a \<Rightarrow> parseDigits r a ys)"
  by (induction xs arbitrary: acc) (auto split: option.splits)

lemma parseDigits_hexDigits: "parseDigits 16 0 (hexDigits n) = Some n"
proof (induction n rule: hexDigits.induct)
  case (1 n)
  show ?case
  proof (cases "n < 16")
    case True
    then show ?thesis
      by (subst hexDigits.simps) (simp add: digitVal_hexChar)
  next
    case False
    have "parseDigits 16 0 (hexDigits n)
        = parseDigits 16 0 (hexDigits (n div 16) @ [hexChar (n mod 16)])"
      using False by (subst hexDigits.simps) simp
    also have "\<dots> = parseDigits 16 (n div 16) [hexChar (n mod 16)]"
      using "1.IH" [OF False] by (simp add: parseDigits_append)
    also have "\<dots> = Some n"
      by (simp add: digitVal_hexChar)
    finally show ?thesis .
  qed
qed

lemma hexDigits_last: "\<exists>ds. hexDigits n = ds @ [hexChar (n mod 16)]"
  by (subst hexDigits.simps) auto

lemma trim_hex: "trim (''0x'' @ hexDigits n) = ''0x'' @ hexDigits n"
proof -
  obtain ds where ds: "hexDigits n = ds @ [hexChar (n mod 16)]"
    using hexDigits_last by blast
  have a: "\<not> isWhiteSpace CHR ''0''" by (simp add: isWhiteSpace_def)
  have b: "\<not> isWhiteSpace (hexChar (n mod 16))" by (rule hexChar_not_space) simp
  show ?thesis
    by (simp add: trim_def ds a b)
qed

lemma BigInt_hex: "BigInt (''0x'' @ hexDigits n) = Inr (int n)"
proof -
  obtain ds where ds: "hexDigits n = ds @ [hexChar (n mod 16)]"
    using hexDigits_last by blast
  then have ne: "hexDigits n \<noteq> []" by simp
  show ?thesis
    unfolding BigInt_def trim_hex Let_def
    by (simp add: parseNat_def ne parseDigits_hexDigits)
qed

text \<open>
  C7. The block offset is \<open>0x\<close> followed by the hexadecimal digits of
  \<open>max (latestBlock - offset) 0\<close>, and reading it back with \<open>hexToBigInt\<close> gives that
  number: never below zero, and the difference itself whenever that is not negative.
\<close>

theorem blockOffset_max:
  "blockOffset latestBlock offset = ''0x'' @ hexDigits (nat (max (latestBlock - offset) 0))
   \<and> hexToBigInt (blockOffset latestBlock offset) = Inr (max (latestBlock - offset) 0)"
proof -
  let ?n = "nat (max (latestBlock - offset) 0)"
  have eq: "blockOffset latestBlock offset = ''0x'' @ hexDigits ?n"
    by (auto simp: blockOffset_def toString16_def Let_def max_def)
  obtain ds where ds: "hexDigits ?n = ds @ [hexChar (?n mod 16)]"
    using hexDigits_last by blast
  then have "''0x'' @ hexDigits ?n \<noteq> ''0x''" by simp
  then have "hexToBigInt (''0x'' @ hexDigits ?n) = Inr (int ?n)"
    by (simp add: hexToBigInt_def BigInt_hex del: append.simps)
  with eq show ?thesis by simp
qed

section \<open>Classification of a transfer\<close>

lemma truthy_Some: "truthy x \<longleftrightarrow> (\<exists>s. x = Some s \<and> s \<noteq> [])"
  by (cases x) auto






section \<open>Range of the conversion\<close>

lemma roundHalfEven_less:
  assumes "p < (2 * N - 1) * T" and "0 < T"
  shows "roundHalfEven p (2 * T) < N"
proof -
  define n where "n = p div (2 * T)"
  define r where "r = p mod (2 * T)"
  have p: "p = n * (2 * T) + r"
    unfolding n_def r_def by (rule div_mult_mod_eq [symmetric])
  have r: "r < 2 * T" using assms(2) by (simp add: r_def)
  show ?thesis
  proof (cases "2 * r < 2 * T")
    case True
    have "n * (2 * T) \<le> p" by (simp add: p)
    also have "p < (2 * N - 1) * T" by (rule assms(1))
    also have "\<dots> \<le> N * (2 * T)" by (simp add: algebra_simps)
    finally have "n < N" by simp
    moreover have "roundHalfEven p (2 * T) = n"
      using True by (simp add: roundHalfEven_def Let_def n_def r_def)
    ultimately show ?thesis by simp
  next
    case False
    then have "T \<le> r" by simp
    then have "(2 * n + 1) * T \<le> p" by (simp add: p algebra_simps)
    also have "p < (2 * N - 1) * T" by (rule assms(1))
    finally have "(2 * n + 1) * T < (2 * N - 1) * T" .
    then have "2 * n + 1 < 2 * N - 1" by (simp only: mult_less_cancel2)
    then have "n + 1 < N" by simp
    moreover have "roundHalfEven p (2 * T) \<le> n + 1"
      by (simp add: roundHalfEven_def Let_def n_def)
    ultimately show ?thesis by simp
  qed
qed

lemma bitLength_le: "n < 2 ^ k \<Longrightarrow> bitLength n \<le> k"
proof (cases "n = 0")
  case True
  then show ?thesis by simp
next
  case False
  assume "n < 2 ^ k"
  from False bitLength_bounds [of n] have "2 ^ (bitLength n - 1) \<le> n" by simp
  from this \<open>n < 2 ^ k\<close> have "(2::nat) ^ (bitLength n - 1) < 2 ^ k"
    by (rule le_less_trans)
  then have "bitLength n - 1 < k" by (rule power_less_imp_less_exp [rotated]) simp
  then show ?thesis by simp
qed

lemma roundFloat_finite:
  assumes "0 < p" and "p < 2 ^ 1024 - 2 ^ 970"
  shows "\<exists>m e. roundFloat sg p 1 0 = Finite sg m e"
proof -
  define b where "b = bitLength p"
  have lo: "2 ^ (b - 1) \<le> p" and hi: "p < 2 ^ b" and b0: "0 < b"
    using bitLength_bounds [OF assms(1)] bitLength_pos [OF assms(1)] by (simp_all add: b_def)
  have "p < 2 ^ 1024" using assms(2) by simp
  then have b: "b \<le> 1024" unfolding b_def by (rule bitLength_le)
  define t where "t = int b - 53"
  define m where "m = (if t \<le> 0 then roundHalfEven (p * 2 ^ nat (0 - t)) 1
                       else roundHalfEven p (1 * 2 ^ nat (t - 0)))"
  have e: "max (ilog2 p 1 + 0) (- 1022) - 52 = t"
    using assms(1) b0 by (simp add: ilog2_one t_def b_def)
  have rf: "roundFloat sg p 1 0 =
      (if m = 2 ^ 53
       then (if 971 < t + 1 then Infinity sg else Finite sg (2 ^ 52) (t + 1))
       else (if 971 < t then Infinity sg else Finite sg m t))"
  proof -
    from assms have "p \<noteq> 0" by simp
    then show ?thesis
      unfolding roundFloat_def Let_def e m_def by (simp only: if_False)
  qed
  have t: "t \<le> 971" using b by (simp add: t_def)
  show ?thesis
  proof (cases "m = 2 ^ 53")
    case False
    with rf t show ?thesis by simp
  next
    case True
    have "t \<le> 970"
    proof (rule ccontr)
      assume "\<not> t \<le> 970"
      with t have t971: "t = 971" by simp
      then have "m = roundHalfEven p (2 * 2 ^ 970)" by (simp add: m_def)
      moreover have "p < (2 * 2 ^ 53 - 1) * 2 ^ 970"
        using assms(2) by simp
      then have "roundHalfEven p (2 * 2 ^ 970) < 2 ^ 53"
        by (rule roundHalfEven_less) simp
      ultimately show False using True by simp
    qed
    with rf True show ?thesis by simp
  qed
qed

lemma Number_base_finite: "d \<le> 308 \<Longrightarrow> Number (10 ^ d) \<noteq> Infinity False"
proof -
  assume "d \<le> 308"
  then have "(10::nat) ^ d \<le> 10 ^ 308" by (intro power_increasing) simp_all
  also have "(10::nat) ^ 308 < 2 ^ 1024 - 2 ^ 970" by simp
  finally have "(10::nat) ^ d < 2 ^ 1024 - 2 ^ 970" .
  moreover have "nat \<bar>(10::int) ^ d\<bar> = (10::nat) ^ d" by (simp add: nat_power_eq)
  moreover have "((10::int) ^ d < 0) = False" by simp
  ultimately show ?thesis
    using roundFloat_finite [of "10 ^ d" False] unfolding Number_def
    by (simp only:) auto
qed


text \<open>
  C6 (amended). For a raw amount that is not negative and at most 308 decimals (so
  that \<open>10\<^sup>d\<close> is a finite number; the default is 18): \<open>weiToMon\<close> of \<open>0\<close> is \<open>0\<close>, the
  result is never below zero, and for a raw amount other than zero it is the
  floating-point sum of the whole part and of the floating-point quotient of the
  remainder by \<open>10\<^sup>d\<close>.
\<close>

theorem weiToMon_nonnegative:
  assumes "0 \<le> raw" and "decimals \<le> 308"
  shows "weiToMon 0 decimals = zeroNum
    \<and> fle zeroNum (weiToMon raw decimals)
    \<and> (raw \<noteq> 0 \<longrightarrow>
         weiToMon raw decimals =
           fadd (Number (raw div 10 ^ decimals))
             (fdiv (Number (raw mod 10 ^ decimals)) (Number (10 ^ decimals))))"
proof -
  have "fle zeroNum (weiToMon raw decimals)"
    using assms by (intro nonnegNum_fle weiToMon_nonneg Number_base_finite)
  moreover have "bigDiv raw (10 ^ decimals) = raw div 10 ^ decimals"
    and "bigRem raw (10 ^ decimals) = raw mod 10 ^ decimals"
    using assms(1) by (simp_all add: bigDiv_nonneg_eq bigRem_nonneg_eq)
  ultimately show ?thesis by (simp add: weiToMon_def Let_def)
qed

theorem weiToMon_nonnegative_witness:
  "(0::int) \<le> 1500000000000000000 \<and> (18::nat) \<le> 308
   \<and> weiToMon 0 18 = zeroNum
   \<and> fle zeroNum (weiToMon 1500000000000000000 18)
   \<and> weiToMon 1500000000000000000 18 =
       fadd (Number 1) (fdiv (Number 500000000000000000) (Number 1000000000000000000))"
proof -
  have h: "(0::int) \<le> 1500000000000000000" "(18::nat) \<le> 308" by simp_all
  note w = weiToMon_nonnegative [OF h]
  from w have "weiToMon 0 18 = zeroNum" by (rule conjunct1)
  moreover from w have "fle zeroNum (weiToMon 1500000000000000000 18)"
    by (rule conjunct2 [THEN conjunct1])
  moreover from w have "(1500000000000000000::int) \<noteq> 0 \<longrightarrow> weiToMon 1500000000000000000 18 =
      fadd (Number (1500000000000000000 div 10 ^ 18))
        (fdiv (Number (1500000000000000000 mod 10 ^ 18)) (Number (10 ^ 18)))"
    by (rule conjunct2 [THEN conjunct2])
  then have "weiToMon 1500000000000000000 18 =
      fadd (Number 1) (fdiv (Number 500000000000000000) (Number 1000000000000000000))"
    by simp
  ultimately show ?thesis using h by blast
qed

theorem weiToMon_nonnegative_counterexample:
  "weiToMon (2 ^ 1024) 309 = NaN \<and> \<not> fle zeroNum (weiToMon (2 ^ 1024) 309)"
proof -
  have a: "Number (2 ^ 1024) = Infinity False" by (simp add: float_eval)
  have b: "Number (10 ^ 309) = Infinity False" by (simp add: float_eval)
  have c: "bigDiv (2 ^ 1024) (10 ^ 309) = 0" by (simp add: bigDiv_def)
  have d: "bigRem (2 ^ 1024) (10 ^ 309) = 2 ^ 1024" by (simp add: bigRem_def)
  have "weiToMon (2 ^ 1024) 309 = NaN"
    unfolding weiToMon_def Let_def c d a b by (simp add: float_eval)
  then show ?thesis by (simp add: zeroNum_def)
qed

section \<open>Skipped logs\<close>

lemma addFlow_zero: "addFlow src tgt zeroNum vm = vm"
  by (simp add: addFlow_def zeroNum_def)

lemma addFlows_zero: "addFlows fromProt toProt zeroNum vm = vm"
  by (simp add: addFlows_def addFlow_zero)

lemma weiToMon_zero: "weiToMon 0 decimals = zeroNum"
  by (simp add: weiToMon_def)

text \<open>
  A log with a first topic is skipped, leaving the volume map as it is, when that
  topic is not the Transfer signature (compared in lower case), when the sender or
  the receiver topic is missing or empty, or when the data are empty or \<open>0x\<close>.
\<close>

lemma processLog_skips:
  assumes "topics log = topic0 # rest"
    and "toLowerCase topic0 \<noteq> TRANSFER_TOPIC \<or> \<not> truthy (nthOpt rest 0)
         \<or> \<not> truthy (nthOpt rest 1) \<or> data log = [] \<or> data log = ''0x''"
  shows "processLog c2p vm log = Inr vm"
proof -
  have n: "nthOpt (topics log) 0 = Some topic0" "nthOpt (topics log) (Suc 0) = nthOpt rest 0"
    "nthOpt (topics log) 2 = nthOpt rest (Suc 0)"
    by (simp_all add: assms(1) nthOpt_def)
  show ?thesis
    using assms(2)
    by (auto simp: processLog_def n Let_def hexToBigInt_def weiToMon_zero addFlows_zero)
qed

lemma processLog_topicless: "processLog c2p vm topiclessLog = Inl TypeError"
  by (simp add: processLog_def topiclessLog_def nthOpt_def)

text \<open>
  C10. A log record without any topic lacks the sender topic, and its data may be
  \<open>0x\<close>; the loop does not skip it: reading \<open>topic0.toLowerCase()\<close> throws a
  \<open>TypeError\<close>, which ends the whole aggregation.
\<close>

theorem topicless_log_throws:
  "buildFlowsForPeriod alphaProtocols [topiclessLog] ''2026-01-01T00:00:00.000Z''
     = Inl TypeError"
  by (simp add: buildFlowsForPeriod_def processLog_topicless)

section \<open>Edge keys\<close>

lemma separator_index:
  "contractToProtocol separatorProtocols =
     [''0xaaaaaaaaaaaaaaaaaaaaaaaaaaaaaaaaaaaaaaaa'' \<mapsto> ''A'',
      ''0xbbbbbbbbbbbbbbbbbbbbbbbbbbbbbbbbbbbbbbbb'' \<mapsto> ''A|||B'']"
  by (simp add: contractToProtocol_def contractsOrEmpty_def separatorProtocols_def string_eval)

lemma wallet_to_separator_a:
  "processLog (contractToProtocol separatorProtocols) vm
     (transferLog walletTopic alphaTopic ''0xde0b6b3a7640000'')
   = Inr (addFlow ''Wallets'' ''A'' oneNum vm)"
  by (simp add: separator_index processLog_def transferLog_def walletTopic_def alphaTopic_def
      TRANSFER_TOPIC_def string_eval hexToBigInt_def amount_one weiToMon_one addFlows_def)

lemma wallet_to_separator_b:
  "processLog (contractToProtocol separatorProtocols) vm
     (transferLog walletTopic betaTopic ''0xde0b6b3a7640000'')
   = Inr (addFlow ''Wallets'' ''A|||B'' oneNum vm)"
  by (simp add: separator_index processLog_def transferLog_def walletTopic_def betaTopic_def
      TRANSFER_TOPIC_def string_eval hexToBigInt_def amount_one weiToMon_one addFlows_def)

text \<open>
  C2. With a protocol named \<open>A\<close> and another named \<open>A|||B\<close>, one transfer from a
  wallet into each gives two different keys, \<open>Wallets|||A\<close> and \<open>Wallets|||A|||B\<close>;
  splitting the keys at \<open>|||\<close> turns both into the pair \<open>(Wallets, A)\<close>, so the flows
  list holds two edges for one ordered pair.
\<close>

theorem separator_in_name_duplicates_edge:
  "buildFlowsForPeriod separatorProtocols
     [transferLog walletTopic alphaTopic ''0xde0b6b3a7640000'',
      transferLog walletTopic betaTopic ''0xde0b6b3a7640000''] ''2026-01-01T00:00:00.000Z''
   = Inr \<lparr>period = ''raw'', lastUpdated = ''2026-01-01T00:00:00.000Z'', totalVolume = twoNum,
       flows = [\<lparr>source = Some ''Wallets'', target = Some ''A'', volume = oneNum\<rparr>,
                \<lparr>source = Some ''Wallets'', target = Some ''A'', volume = oneNum\<rparr>]\<rparr>"
proof -
  have a: "addFlow ''Wallets'' ''A'' oneNum [] = [(''Wallets|||A'', oneNum)]"
    by (simp add: addFlow_def fadd_zero_one) (simp add: oneNum_def zeroNum_def Let_def)
  have b: "addFlow ''Wallets'' ''A|||B'' oneNum [(''Wallets|||A'', oneNum)]
      = [(''Wallets|||A'', oneNum), (''Wallets|||A|||B'', oneNum)]"
    by (simp add: addFlow_def fadd_zero_one) (simp add: oneNum_def zeroNum_def Let_def)
  have c: "fadd (fadd zeroNum oneNum) oneNum = twoNum"
    by (simp add: oneNum_def twoNum_def float_eval)
  show ?thesis
    by (simp add: buildFlowsForPeriod_def wallet_to_separator_a wallet_to_separator_b a b c
        flowEntry_def string_eval)
qed

section \<open>Order of the events\<close>

lemma map_of_mapSet: "map_of (mapSet k v vm) k' = (if k' = k then Some v else map_of vm k')"
  by (induction vm) auto

lemma keys_mapSet: "fst ` set (mapSet k v vm) = insert k (fst ` set vm)"
  by (induction vm) auto

text \<open>
  The three \<open>if\<close> statements either leave every volume map alone or, for one fixed
  key, add the volume to that key in every volume map.
\<close>

lemma addFlows_uniform:
  obtains (none) "\<forall>vm. addFlows fromProt toProt vol vm = vm"
  | (some) key where "\<not> fle vol zeroNum"
      and "\<forall>vm. addFlows fromProt toProt vol vm =
             mapSet key (fadd (case map_of vm key of None \<Rightarrow> zeroNum
                                | Some x \<Rightarrow> if numTruthy x then x else zeroNum) vol) vm"
proof (cases "fle vol zeroNum")
  case True
  then have "\<forall>vm. addFlows fromProt toProt vol vm = vm"
    by (simp add: addFlows_def addFlow_def)
  then show ?thesis by (rule none)
next
  case False
  consider (a) "\<not> truthy fromProt" "truthy toProt"
    | (b) "truthy fromProt" "\<not> truthy toProt"
    | (c) "truthy fromProt" "truthy toProt" "fromProt \<noteq> toProt"
    | (d) "\<not> (\<not> truthy fromProt \<and> truthy toProt)" "\<not> (truthy fromProt \<and> \<not> truthy toProt)"
        "\<not> (truthy fromProt \<and> truthy toProt \<and> fromProt \<noteq> toProt)"
    by blast
  then show ?thesis
  proof cases
    case a
    with False show ?thesis
      by (intro some [of "''Wallets'' @ ''|||'' @ the toProt"])
        (simp_all add: addFlows_def addFlow_def Let_def)
  next
    case b
    with False show ?thesis
      by (intro some [of "the fromProt @ ''|||'' @ ''Wallets''"])
        (simp_all add: addFlows_def addFlow_def Let_def)
  next
    case c
    with False show ?thesis
      by (intro some [of "the fromProt @ ''|||'' @ the toProt"])
        (simp_all add: addFlows_def addFlow_def Let_def)
  next
    case d
    then have "\<forall>vm. addFlows fromProt toProt vol vm = vm"
      by (auto simp: addFlows_def Let_def)
    then show ?thesis by (rule none)
  qed
qed

text \<open>
  One iteration of the loop either throws whatever the volume map is, or skips the
  log, or adds the volume \<open>logFlow\<close> names to the key \<open>logFlow\<close> names.
\<close>

lemma processLog_uniform:
  obtains (err) e where "\<forall>vm. processLog c2p vm log = Inl e"
  | (skip) "\<forall>vm. processLog c2p vm log = Inr vm" and "logFlow c2p log = None"
  | (add) key vol where "posNum vol" and "logFlow c2p log = Some (key, vol)"
      and "\<forall>vm. processLog c2p vm log =
             Inr (mapSet key (fadd (case map_of vm key of None \<Rightarrow> zeroNum
                                     | Some x \<Rightarrow> if numTruthy x then x else zeroNum) vol) vm)"
proof (cases "nthOpt (topics log) 0")
  case None
  then have "\<forall>vm. processLog c2p vm log = Inl TypeError"
    by (simp add: processLog_def)
  then show ?thesis by (rule err)
next
  case (Some t0)
  show ?thesis
  proof (cases "toLowerCase t0 \<noteq> TRANSFER_TOPIC
      \<or> \<not> truthy (nthOpt (topics log) 1) \<or> \<not> truthy (nthOpt (topics log) 2)")
    case True
    with Some have "\<forall>vm. processLog c2p vm log = Inr vm"
      by (auto simp: processLog_def Let_def)
    moreover from this have "logFlow c2p log = None"
      by (simp add: logFlow_def)
    ultimately show ?thesis by (rule skip)
  next
    case False
    define src where "src = c2p (''0x'' @ toLowerCase (drop 26 (the (nthOpt (topics log) 1))))"
    define tgt where "tgt = c2p (''0x'' @ toLowerCase (drop 26 (the (nthOpt (topics log) 2))))"
    have pl: "processLog c2p vm log =
        (case hexToBigInt (data log) of Inl e \<Rightarrow> Inl e
         | Inr valueBig \<Rightarrow> Inr (addFlows src tgt (weiToMon valueBig 18) vm))" for vm
      using Some False
      by (simp add: processLog_def Let_def src_def tgt_def cong: sum.case_cong)
    show ?thesis
    proof (cases "hexToBigInt (data log)")
      case (Inl e)
      then have "\<forall>vm. processLog c2p vm log = Inl e" by (simp add: pl)
      then show ?thesis by (rule err)
    next
      case (Inr valueBig)
      show ?thesis
      proof (cases src tgt "weiToMon valueBig 18" rule: addFlows_uniform)
        case none
        then have "\<forall>vm. processLog c2p vm log = Inr vm" by (simp add: pl Inr)
        moreover from this have "logFlow c2p log = None"
          by (simp add: logFlow_def)
        ultimately show ?thesis by (rule skip)
      next
        case (some key)
        have "posNum (weiToMon valueBig 18)"
          using some(1) by (rule weiToMon18_guard)
        moreover have "\<forall>vm. processLog c2p vm log =
            Inr (mapSet key (fadd (case map_of vm key of None \<Rightarrow> zeroNum
                  | Some x \<Rightarrow> if numTruthy x then x else zeroNum) (weiToMon valueBig 18)) vm)"
          using some(2) by (simp add: pl Inr)
        moreover from this have "logFlow c2p log = Some (key, weiToMon valueBig 18)"
          by (simp add: logFlow_def Inr)
        ultimately show ?thesis by (intro add [of "weiToMon valueBig 18" key])
      qed
    qed
  qed
qed


lemma contributions_snoc:
  "contributions c2p (logs @ [log]) key =
     contributions c2p logs key
       @ (case logFlow c2p log of None \<Rightarrow> []
          | Some kv \<Rightarrow> if fst kv = key then [snd kv] else [])"
  by (simp add: contributions_def map_filter_def split: option.splits)

lemma contributions_perm:
  "mset logs' = mset logs \<Longrightarrow>
   mset (contributions c2p logs' key) = mset (contributions c2p logs key)"
  by (simp add: contributions_def map_filter_def)

text \<open>
  The volume under a key is the left-to-right floating-point sum, from \<open>0\<close>, of the
  volumes that the logs processed so far added to it.
\<close>

lemma processLog_accumulates:
  assumes "processLog c2p vm log = Inr vm1"
    and "\<forall>key. map_of vm key = (if contributions c2p seen key = [] then None
            else Some (foldl fadd zeroNum (contributions c2p seen key)))"
    and "\<forall>kv\<in>set vm. posNum (snd kv)"
  shows "\<forall>key. map_of vm1 key = (if contributions c2p (seen @ [log]) key = [] then None
            else Some (foldl fadd zeroNum (contributions c2p (seen @ [log]) key)))"
proof (cases c2p log rule: processLog_uniform)
  case (err e)
  with assms(1) show ?thesis by simp
next
  case skip
  with assms(1,2) show ?thesis by (simp add: contributions_snoc)
next
  case (add k vol)
  let ?prev = "case map_of vm k of None \<Rightarrow> zeroNum | Some x \<Rightarrow> if numTruthy x then x else zeroNum"
  from add(3) assms(1) have vm1: "vm1 = mapSet k (fadd ?prev vol) vm" by simp
  have prev: "?prev = foldl fadd zeroNum (contributions c2p seen k)"
  proof (cases "contributions c2p seen k = []")
    case True
    with assms(2) show ?thesis by simp
  next
    case False
    with assms(2) have m: "map_of vm k = Some (foldl fadd zeroNum (contributions c2p seen k))"
      by simp
    then have "(k, foldl fadd zeroNum (contributions c2p seen k)) \<in> set vm"
      by (rule map_of_SomeD)
    with assms(3) have "posNum (foldl fadd zeroNum (contributions c2p seen k))" by auto
    then have "numTruthy (foldl fadd zeroNum (contributions c2p seen k))"
      by (rule posNum_numTruthy)
    with m show ?thesis by simp
  qed
  show ?thesis
  proof
    fix key
    show "map_of vm1 key = (if contributions c2p (seen @ [log]) key = [] then None
            else Some (foldl fadd zeroNum (contributions c2p (seen @ [log]) key)))"
    proof (cases "key = k")
      case True
      then show ?thesis
        by (simp add: vm1 map_of_mapSet contributions_snoc add(2) prev)
    next
      case False
      with assms(2) show ?thesis
        by (simp add: vm1 map_of_mapSet contributions_snoc add(2))
    qed
  qed
qed

lemma processLogs_accumulates:
  "processLogs c2p vm logs = Inr vm' \<Longrightarrow>
   \<forall>key. map_of vm key = (if contributions c2p seen key = [] then None
            else Some (foldl fadd zeroNum (contributions c2p seen key))) \<Longrightarrow>
   \<forall>kv\<in>set vm. posNum (snd kv) \<Longrightarrow>
   \<forall>key. map_of vm' key = (if contributions c2p (seen @ logs) key = [] then None
            else Some (foldl fadd zeroNum (contributions c2p (seen @ logs) key)))"
proof (induction logs arbitrary: vm seen)
  case Nil
  then show ?case by simp
next
  case (Cons log logs)
  from Cons.prems(1) obtain vm1 where one: "processLog c2p vm log = Inr vm1"
    and rest: "processLogs c2p vm1 logs = Inr vm'"
    by (auto split: sum.splits)
  from one Cons.prems(2,3)
  have "\<forall>key. map_of vm1 key = (if contributions c2p (seen @ [log]) key = [] then None
            else Some (foldl fadd zeroNum (contributions c2p (seen @ [log]) key)))"
    by (rule processLog_accumulates)
  moreover from one Cons.prems(3) have "\<forall>kv\<in>set vm1. posNum (snd kv)"
    by (rule processLog_positive)
  ultimately have "\<forall>key. map_of vm' key =
      (if contributions c2p ((seen @ [log]) @ logs) key = [] then None
       else Some (foldl fadd zeroNum (contributions c2p ((seen @ [log]) @ logs) key)))"
    by (rule Cons.IH [OF rest])
  then show ?case by simp
qed

lemma processLogs_Inr_iff:
  "(\<exists>vm'. processLogs c2p vm logs = Inr vm')
     \<longleftrightarrow> (\<forall>log\<in>set logs. \<exists>vm0. processLog c2p [] log = Inr vm0)"
proof (induction logs arbitrary: vm)
  case Nil
  show ?case by simp
next
  case (Cons log logs)
  show ?case
  proof (cases c2p log rule: processLog_uniform)
    case (err e)
    then show ?thesis by simp
  next
    case skip
    then show ?thesis using Cons.IH [of vm] by simp
  next
    case (add k vol)
    then show ?thesis
      using Cons.IH [of "mapSet k (fadd (case map_of vm k of None \<Rightarrow> zeroNum
              | Some x \<Rightarrow> if numTruthy x then x else zeroNum) vol) vm"]
      by simp
  qed
qed

lemma keys_map_of: "fst ` set vm = {key. map_of vm key \<noteq> None}"
  by (rule set_eqI) (simp add: map_of_eq_None_iff)

lemma edges_keys:
  "flows report = map flowEntry vm \<Longrightarrow>
   edges report = (\<lambda>key. (nthOpt (split ''|||'' key) 0, nthOpt (split ''|||'' key) 1)) ` fst ` set vm"
  by (simp add: edges_def flowEntry_def Let_def image_image)


text \<open>
  C5 (amended). Aggregating a permutation of the events gives a report as well, with
  the same set of edge keys and the same set of edges. The volume of an edge key is
  the floating-point sum, taken in event order from \<open>0\<close>, of the volumes of the events
  classified into it; the two runs sum the same multiset of volumes for each key, in
  their own orders, so the volumes of an edge (like the total) agree up to
  floating-point summation order.
\<close>

theorem permuted_events_same_edges:
  assumes "mset logs' = mset logs"
    and "buildFlowsForPeriod protocols logs now = Inr report"
  shows "\<exists>vm vm' report'.
      processLogs (contractToProtocol protocols) [] logs = Inr vm
    \<and> flows report = map flowEntry vm
    \<and> processLogs (contractToProtocol protocols) [] logs' = Inr vm'
    \<and> buildFlowsForPeriod protocols logs' now = Inr report'
    \<and> flows report' = map flowEntry vm'
    \<and> edges report' = edges report
    \<and> fst ` set vm' = fst ` set vm
    \<and> (\<forall>key\<in>fst ` set vm.
          map_of vm key
            = Some (foldl fadd zeroNum (contributions (contractToProtocol protocols) logs key))
        \<and> map_of vm' key
            = Some (foldl fadd zeroNum (contributions (contractToProtocol protocols) logs' key))
        \<and> mset (contributions (contractToProtocol protocols) logs' key)
            = mset (contributions (contractToProtocol protocols) logs key))"
proof -
  let ?c2p = "contractToProtocol protocols"
  from assms(2) obtain vm where vm: "processLogs ?c2p [] logs = Inr vm"
    and fl: "flows report = map flowEntry vm"
    by (auto simp: buildFlowsForPeriod_def Let_def split: sum.splits)
  from assms(1) have "set logs' = set logs" by (rule mset_eq_setD)
  with vm processLogs_Inr_iff [of ?c2p "[]" logs] processLogs_Inr_iff [of ?c2p "[]" logs']
  obtain vm' where vm': "processLogs ?c2p [] logs' = Inr vm'" by auto
  define report' where "report' =
    \<lparr>period = ''raw'', lastUpdated = now,
     totalVolume = foldl (\<lambda>sum f. fadd sum (volume f)) zeroNum (map flowEntry vm'),
     flows = map flowEntry vm'\<rparr>"
  have r': "buildFlowsForPeriod protocols logs' now = Inr report'"
    by (simp add: buildFlowsForPeriod_def vm' report'_def Let_def)
  have fl': "flows report' = map flowEntry vm'" by (simp add: report'_def)
  have acc: "\<forall>key. map_of vm key = (if contributions ?c2p logs key = [] then None
      else Some (foldl fadd zeroNum (contributions ?c2p logs key)))"
    using processLogs_accumulates [OF vm, of "[]"] by (simp add: contributions_def map_filter_def)
  have acc': "\<forall>key. map_of vm' key = (if contributions ?c2p logs' key = [] then None
      else Some (foldl fadd zeroNum (contributions ?c2p logs' key)))"
    using processLogs_accumulates [OF vm', of "[]"] by (simp add: contributions_def map_filter_def)
  have perm: "mset (contributions ?c2p logs' key) = mset (contributions ?c2p logs key)" for key
    using assms(1) by (rule contributions_perm)
  have empty: "contributions ?c2p logs' key = [] \<longleftrightarrow> contributions ?c2p logs key = []" for key
    using perm [of key] by (metis mset_zero_iff)
  have keys: "fst ` set vm' = fst ` set vm"
    by (simp add: keys_map_of acc acc' empty)
  have "edges report' = edges report"
    by (simp add: edges_keys [OF fl] edges_keys [OF fl'] keys)
  moreover have "\<forall>key\<in>fst ` set vm.
      map_of vm key = Some (foldl fadd zeroNum (contributions ?c2p logs key))
    \<and> map_of vm' key = Some (foldl fadd zeroNum (contributions ?c2p logs' key))
    \<and> mset (contributions ?c2p logs' key) = mset (contributions ?c2p logs key)"
  proof
    fix key
    assume "key \<in> fst ` set vm"
    then have "contributions ?c2p logs key \<noteq> []"
      by (simp add: keys_map_of acc split: if_splits)
    then show "map_of vm key = Some (foldl fadd zeroNum (contributions ?c2p logs key))
      \<and> map_of vm' key = Some (foldl fadd zeroNum (contributions ?c2p logs' key))
      \<and> mset (contributions ?c2p logs' key) = mset (contributions ?c2p logs key)"
      by (simp add: acc acc' empty perm)
  qed
  ultimately show ?thesis using vm fl vm' r' fl' keys by blast
qed

subsection \<open>Three transfers of 0.1, 0.2 and 0.3 tokens, in two orders\<close>

lemma amount_tenths:
  "BigInt ''0x16345785d8a0000'' = Inr 100000000000000000"
  "BigInt ''0x2c68af0bb140000'' = Inr 200000000000000000"
  "BigInt ''0x429d069189e0000'' = Inr 300000000000000000"
  by (simp_all add: bigint_eval)

lemma weiToMon_tenths:
  "weiToMon 100000000000000000 18 = Finite False 7205759403792794 (- 56)"
  "weiToMon 200000000000000000 18 = Finite False 7205759403792794 (- 55)"
  "weiToMon 300000000000000000 18 = Finite False 5404319552844595 (- 54)"
  by (simp_all add: weiToMon_def bigint_eval float_eval)

lemma accumulate_ascending:
  "addFlow ''Wallets'' ''Alpha'' (Finite False 7205759403792794 (- 56)) []
     = [(''Wallets|||Alpha'', Finite False 7205759403792794 (- 56))]"
  "addFlow ''Wallets'' ''Alpha'' (Finite False 7205759403792794 (- 55))
       [(''Wallets|||Alpha'', Finite False 7205759403792794 (- 56))]
     = [(''Wallets|||Alpha'', Finite False 5404319552844596 (- 54))]"
  "addFlow ''Wallets'' ''Alpha'' (Finite False 5404319552844595 (- 54))
       [(''Wallets|||Alpha'', Finite False 5404319552844596 (- 54))]
     = [(''Wallets|||Alpha'', Finite False 5404319552844596 (- 53))]"
  by (simp_all add: addFlow_def float_eval)

lemma accumulate_descending:
  "addFlow ''Wallets'' ''Alpha'' (Finite False 5404319552844595 (- 54)) []
     = [(''Wallets|||Alpha'', Finite False 5404319552844595 (- 54))]"
  "addFlow ''Wallets'' ''Alpha'' (Finite False 7205759403792794 (- 55))
       [(''Wallets|||Alpha'', Finite False 5404319552844595 (- 54))]
     = [(''Wallets|||Alpha'', Finite False 4503599627370496 (- 53))]"
  "addFlow ''Wallets'' ''Alpha'' (Finite False 7205759403792794 (- 56))
       [(''Wallets|||Alpha'', Finite False 4503599627370496 (- 53))]
     = [(''Wallets|||Alpha'', Finite False 5404319552844595 (- 53))]"
  by (simp_all add: addFlow_def float_eval)

lemma totals_of_one_edge:
  "fadd zeroNum (Finite False 5404319552844596 (- 53)) = Finite False 5404319552844596 (- 53)"
  "fadd zeroNum (Finite False 5404319552844595 (- 53)) = Finite False 5404319552844595 (- 53)"
  by (simp_all add: float_eval)

theorem permuted_events_counterexample:
  "mset [transferLog walletTopic alphaTopic ''0x429d069189e0000'',
         transferLog walletTopic alphaTopic ''0x2c68af0bb140000'',
         transferLog walletTopic alphaTopic ''0x16345785d8a0000'']
     = mset [transferLog walletTopic alphaTopic ''0x16345785d8a0000'',
             transferLog walletTopic alphaTopic ''0x2c68af0bb140000'',
             transferLog walletTopic alphaTopic ''0x429d069189e0000'']
   \<and> buildFlowsForPeriod alphaProtocols
        [transferLog walletTopic alphaTopic ''0x16345785d8a0000'',
         transferLog walletTopic alphaTopic ''0x2c68af0bb140000'',
         transferLog walletTopic alphaTopic ''0x429d069189e0000''] ''2026-01-01T00:00:00.000Z''
      = Inr \<lparr>period = ''raw'', lastUpdated = ''2026-01-01T00:00:00.000Z'',
          totalVolume = Finite False 5404319552844596 (- 53),
          flows = [\<lparr>source = Some ''Wallets'', target = Some ''Alpha'',
                    volume = Finite False 5404319552844596 (- 53)\<rparr>]\<rparr>
   \<and> buildFlowsForPeriod alphaProtocols
        [transferLog walletTopic alphaTopic ''0x429d069189e0000'',
         transferLog walletTopic alphaTopic ''0x2c68af0bb140000'',
         transferLog walletTopic alphaTopic ''0x16345785d8a0000''] ''2026-01-01T00:00:00.000Z''
      = Inr \<lparr>period = ''raw'', lastUpdated = ''2026-01-01T00:00:00.000Z'',
          totalVolume = Finite False 5404319552844595 (- 53),
          flows = [\<lparr>source = Some ''Wallets'', target = Some ''Alpha'',
                    volume = Finite False 5404319552844595 (- 53)\<rparr>]\<rparr>"
proof -
  have "mset [c, b, a] = mset [a, b, c]" for a b c :: Log
    by (simp add: add.commute add.left_commute)
  moreover have "buildFlowsForPeriod alphaProtocols
        [transferLog walletTopic alphaTopic ''0x16345785d8a0000'',
         transferLog walletTopic alphaTopic ''0x2c68af0bb140000'',
         transferLog walletTopic alphaTopic ''0x429d069189e0000''] ''2026-01-01T00:00:00.000Z''
      = Inr \<lparr>period = ''raw'', lastUpdated = ''2026-01-01T00:00:00.000Z'',
          totalVolume = Finite False 5404319552844596 (- 53),
          flows = [\<lparr>source = Some ''Wallets'', target = Some ''Alpha'',
                    volume = Finite False 5404319552844596 (- 53)\<rparr>]\<rparr>"
    by (simp add: buildFlowsForPeriod_def wallet_to_alpha amount_tenths weiToMon_tenths
        accumulate_ascending totals_of_one_edge flowEntry_def string_eval)
  moreover have "buildFlowsForPeriod alphaProtocols
        [transferLog walletTopic alphaTopic ''0x429d069189e0000'',
         transferLog walletTopic alphaTopic ''0x2c68af0bb140000'',
         transferLog walletTopic alphaTopic ''0x16345785d8a0000''] ''2026-01-01T00:00:00.000Z''
      = Inr \<lparr>period = ''raw'', lastUpdated = ''2026-01-01T00:00:00.000Z'',
          totalVolume = Finite False 5404319552844595 (- 53),
          flows = [\<lparr>source = Some ''Wallets'', target = Some ''Alpha'',
                    volume = Finite False 5404319552844595 (- 53)\<rparr>]\<rparr>"
    by (simp add: buildFlowsForPeriod_def wallet_to_alpha amount_tenths weiToMon_tenths
        accumulate_descending totals_of_one_edge flowEntry_def string_eval)
  ultimately show ?thesis by (simp only: simp_thms)
qed

theorem permuted_events_same_edges_witness:
  "mset [transferLog walletTopic alphaTopic ''0x29a2241af62c0000'',
         transferLog walletTopic alphaTopic ''0x1bc16d674ec80000'']
     = mset [transferLog walletTopic alphaTopic ''0x1bc16d674ec80000'',
             transferLog walletTopic alphaTopic ''0x29a2241af62c0000'']
   \<and> buildFlowsForPeriod alphaProtocols
        [transferLog walletTopic alphaTopic ''0x1bc16d674ec80000'',
         transferLog walletTopic alphaTopic ''0x29a2241af62c0000''] ''2026-01-01T00:00:00.000Z''
      = Inr \<lparr>period = ''raw'', lastUpdated = ''2026-01-01T00:00:00.000Z'', totalVolume = fiveNum,
          flows = [\<lparr>source = Some ''Wallets'', target = Some ''Alpha'', volume = fiveNum\<rparr>]\<rparr>
   \<and> (\<exists>report'.
        buildFlowsForPeriod alphaProtocols
          [transferLog walletTopic alphaTopic ''0x29a2241af62c0000'',
           transferLog walletTopic alphaTopic ''0x1bc16d674ec80000''] ''2026-01-01T00:00:00.000Z''
          = Inr report'
        \<and> edges report' = {(Some ''Wallets'', Some ''Alpha'')})"
proof -
  have p: "mset [b, a] = mset [a, b]" for a b :: Log
    by (simp add: add.commute)
  note run = scenarioB [of "''2026-01-01T00:00:00.000Z''"]
  from permuted_events_same_edges [OF p run]
  obtain report' where "buildFlowsForPeriod alphaProtocols
          [transferLog walletTopic alphaTopic ''0x29a2241af62c0000'',
           transferLog walletTopic alphaTopic ''0x1bc16d674ec80000''] ''2026-01-01T00:00:00.000Z''
          = Inr report'"
    and "edges report' = edges \<lparr>period = ''raw'', lastUpdated = ''2026-01-01T00:00:00.000Z'',
          totalVolume = fiveNum,
          flows = [\<lparr>source = Some ''Wallets'', target = Some ''Alpha'', volume = fiveNum\<rparr>]\<rparr>"
    by blast
  moreover have "edges \<lparr>period = ''raw'', lastUpdated = ''2026-01-01T00:00:00.000Z'',
          totalVolume = fiveNum,
          flows = [\<lparr>source = Some ''Wallets'', target = Some ''Alpha'', volume = fiveNum\<rparr>]\<rparr>
      = {(Some ''Wallets'', Some ''Alpha'')}"
    by (simp add: edges_def)
  ultimately show ?thesis using p run by (simp only:) blast
qed

subsection \<open>Names without the separator character\<close>

lemma splitAcc_plain:
  "CHR ''|'' \<notin> set t \<Longrightarrow> splitAcc ''|||'' acc t = [rev acc @ t]"
  by (induction t arbitrary: acc) auto

lemma splitAcc_key:
  "CHR ''|'' \<notin> set s \<Longrightarrow> CHR ''|'' \<notin> set t \<Longrightarrow>
   splitAcc ''|||'' acc (s @ ''|||'' @ t) = [rev acc @ s, t]"
proof (induction s arbitrary: acc)
  case Nil
  then show ?case using splitAcc_plain [of t "[]"] by simp
next
  case (Cons c s)
  then show ?case by auto
qed

lemma split_key:
  "CHR ''|'' \<notin> set s \<Longrightarrow> CHR ''|'' \<notin> set t \<Longrightarrow> split ''|||'' (s @ ''|||'' @ t) = [s, t]"
  using splitAcc_key [of s t "[]"] by (simp add: split_def)

lemma distinct_mapSet: "distinct (map fst vm) \<Longrightarrow> distinct (map fst (mapSet k v vm))"
  by (induction vm) (auto simp: keys_mapSet)

lemma addFlow_distinct: "distinct (map fst vm) \<Longrightarrow> distinct (map fst (addFlow src tgt vol vm))"
  by (simp add: addFlow_def Let_def distinct_mapSet)

lemma addFlows_distinct:
  "distinct (map fst vm) \<Longrightarrow> distinct (map fst (addFlows fromProt toProt vol vm))"
  by (simp add: addFlows_def Let_def addFlow_distinct)

lemma addFlow_keys:
  "fst ` set (addFlow src tgt vol vm) \<subseteq> insert (src @ ''|||'' @ tgt) (fst ` set vm)"
  by (auto simp: addFlow_def Let_def keys_mapSet)

lemma addFlows_keys:
  assumes "\<And>s t. s = ''Wallets'' \<or> fromProt = Some s \<Longrightarrow> t = ''Wallets'' \<or> toProt = Some t
      \<Longrightarrow> s @ ''|||'' @ t \<in> K"
  shows "fst ` set (addFlows fromProt toProt vol vm) \<subseteq> fst ` set vm \<union> K"
proof -
  have one: "fst ` set (addFlow s t vol vm) \<subseteq> fst ` set vm \<union> K"
    if "s = ''Wallets'' \<or> fromProt = Some s" "t = ''Wallets'' \<or> toProt = Some t" for s t
  proof -
    have "fst ` set (addFlow s t vol vm) \<subseteq> insert (s @ ''|||'' @ t) (fst ` set vm)"
      by (rule addFlow_keys)
    also from that have "s @ ''|||'' @ t \<in> K" by (rule assms)
    then have "insert (s @ ''|||'' @ t) (fst ` set vm) \<subseteq> fst ` set vm \<union> K"
      by (intro insert_subsetI UnI2 Un_upper1)
    finally show ?thesis .
  qed
  consider (a) "\<not> truthy fromProt" "truthy toProt"
    | (b) "truthy fromProt" "\<not> truthy toProt"
    | (c) "truthy fromProt" "truthy toProt" "fromProt \<noteq> toProt"
    | (d) "\<not> (\<not> truthy fromProt \<and> truthy toProt)" "\<not> (truthy fromProt \<and> \<not> truthy toProt)"
        "\<not> (truthy fromProt \<and> truthy toProt \<and> fromProt \<noteq> toProt)"
    by blast
  then show ?thesis
  proof cases
    case a
    then obtain q where q: "toProt = Some q" by (cases toProt) auto
    from a have eq: "addFlows fromProt toProt vol vm = addFlow ''Wallets'' q vol vm"
      by (simp add: addFlows_def q)
    show ?thesis unfolding eq by (rule one) (simp_all add: q)
  next
    case b
    then obtain p where p: "fromProt = Some p" by (cases fromProt) auto
    from b have eq: "addFlows fromProt toProt vol vm = addFlow p ''Wallets'' vol vm"
      by (simp add: addFlows_def p)
    show ?thesis unfolding eq by (rule one) (simp_all add: p)
  next
    case c
    then obtain p q where pq: "fromProt = Some p" "toProt = Some q"
      by (cases fromProt; cases toProt) auto
    from c have eq: "addFlows fromProt toProt vol vm = addFlow p q vol vm"
      by (simp add: addFlows_def pq)
    show ?thesis unfolding eq by (rule one) (simp_all add: pq)
  next
    case d
    then have "addFlows fromProt toProt vol vm = vm"
      by (auto simp: addFlows_def Let_def)
    then show ?thesis by auto
  qed
qed




lemma processLog_distinct:
  "processLog c2p vm log = Inr vm' \<Longrightarrow> distinct (map fst vm) \<Longrightarrow> distinct (map fst vm')"
  by (erule processLog_cases) (simp_all add: addFlows_distinct)

lemma processLogs_distinct:
  "processLogs c2p vm logs = Inr vm' \<Longrightarrow> distinct (map fst vm) \<Longrightarrow> distinct (map fst vm')"
  by (induction logs arbitrary: vm) (auto split: sum.splits dest: processLog_distinct)

lemma processLog_keys:
  assumes "processLog c2p vm log = Inr vm'"
    and "\<And>s t. s = ''Wallets'' \<or> s \<in> ran c2p \<Longrightarrow> t = ''Wallets'' \<or> t \<in> ran c2p
      \<Longrightarrow> s @ ''|||'' @ t \<in> K"
  shows "fst ` set vm' \<subseteq> fst ` set vm \<union> K"
proof -
  have "fst ` set (addFlows (c2p a) (c2p b) vol vm) \<subseteq> fst ` set vm \<union> K" for a b vol
  proof (rule addFlows_keys)
    fix s t
    assume "s = ''Wallets'' \<or> c2p a = Some s" and "t = ''Wallets'' \<or> c2p b = Some t"
    then have "s = ''Wallets'' \<or> s \<in> ran c2p" and "t = ''Wallets'' \<or> t \<in> ran c2p"
      by (auto simp: ran_def)
    then show "s @ ''|||'' @ t \<in> K" by (rule assms(2))
  qed
  with assms(1) show ?thesis
    by (cases rule: processLog_cases) auto
qed

lemma processLogs_keys:
  assumes "\<And>s t. s = ''Wallets'' \<or> s \<in> ran c2p \<Longrightarrow> t = ''Wallets'' \<or> t \<in> ran c2p
      \<Longrightarrow> s @ ''|||'' @ t \<in> K"
  shows "processLogs c2p vm logs = Inr vm' \<Longrightarrow> fst ` set vm' \<subseteq> fst ` set vm \<union> K"
proof (induction logs arbitrary: vm)
  case Nil
  then show ?case by auto
next
  case (Cons log logs)
  from Cons.prems obtain vm1 where one: "processLog c2p vm log = Inr vm1"
    and rest: "processLogs c2p vm1 logs = Inr vm'"
    by (auto split: sum.splits)
  from one have "fst ` set vm1 \<subseteq> fst ` set vm \<union> K"
    by (rule processLog_keys) (rule assms)
  moreover from rest have "fst ` set vm' \<subseteq> fst ` set vm1 \<union> K"
    by (rule Cons.IH)
  ultimately show ?case by blast
qed


text \<open>
  When no protocol name contains the character \<open>|\<close>, a key determines its pair of
  source and target, so the edges of a report are pairwise different pairs.
\<close>

lemma edges_distinct_without_separator:
  assumes "\<forall>name\<in>fst ` set protocols. CHR ''|'' \<notin> set name"
    and "buildFlowsForPeriod protocols logs now = Inr report"
  shows "distinct (map (\<lambda>f. (source f, target f)) (flows report))"
proof -
  define c2p where "c2p = contractToProtocol protocols"
  define K where "K = {s @ ''|||'' @ t | s t. CHR ''|'' \<notin> set s \<and> CHR ''|'' \<notin> set t}"
  define g where "g = (\<lambda>key. (nthOpt (split ''|||'' key) 0, nthOpt (split ''|||'' key) 1))"
  have KI: "s @ ''|||'' @ t \<in> K" if "CHR ''|'' \<notin> set s" "CHR ''|'' \<notin> set t" for s t
    unfolding K_def mem_Collect_eq
    by (rule exI [of _ s], rule exI [of _ t]) (simp only: that simp_thms)
  have KE: "\<exists>s t. k = s @ ''|||'' @ t \<and> CHR ''|'' \<notin> set s \<and> CHR ''|'' \<notin> set t" if "k \<in> K" for k
    using that by (simp only: K_def mem_Collect_eq)
  from assms(2) obtain vm where vm: "processLogs c2p [] logs = Inr vm"
    and fl: "flows report = map flowEntry vm"
    by (auto simp: buildFlowsForPeriod_def c2p_def Let_def split: sum.splits)
  have w: "CHR ''|'' \<notin> set ''Wallets''" by simp
  have plain: "CHR ''|'' \<notin> set s" if "s = ''Wallets'' \<or> s \<in> ran c2p" for s
  proof (cases "s = ''Wallets''")
    case True
    with w show ?thesis by simp
  next
    case False
    with that have "s \<in> ran c2p" by (simp only: simp_thms)
    with contractToProtocol_names [of protocols] have "s \<in> fst ` set protocols"
      unfolding c2p_def by (rule subsetD)
    with assms(1) show ?thesis by (rule bspec)
  qed
  have "fst ` set vm \<subseteq> fst ` set ([] :: volumeMap) \<union> K"
  proof (rule processLogs_keys [OF _ vm])
    fix s t
    assume s: "s = ''Wallets'' \<or> s \<in> ran c2p" and t: "t = ''Wallets'' \<or> t \<in> ran c2p"
    from s have "CHR ''|'' \<notin> set s" by (rule plain)
    moreover from t have "CHR ''|'' \<notin> set t" by (rule plain)
    ultimately show "s @ ''|||'' @ t \<in> K" by (rule KI)
  qed
  then have keys: "fst ` set vm \<subseteq> K" by simp
  have g: "g (s @ ''|||'' @ t) = (Some s, Some t)"
    if "CHR ''|'' \<notin> set s" "CHR ''|'' \<notin> set t" for s t
    unfolding g_def split_key [OF that] by (simp add: nthOpt_def)
  have "inj_on g K"
  proof (rule inj_onI)
    fix k k'
    assume "k \<in> K" and "k' \<in> K" and eq: "g k = g k'"
    from KE [OF \<open>k \<in> K\<close>] obtain s t
      where k: "k = s @ ''|||'' @ t" "CHR ''|'' \<notin> set s" "CHR ''|'' \<notin> set t" by (elim exE conjE)
    from KE [OF \<open>k' \<in> K\<close>] obtain s' t'
      where k': "k' = s' @ ''|||'' @ t'" "CHR ''|'' \<notin> set s'" "CHR ''|'' \<notin> set t'" by (elim exE conjE)
    from eq have "(Some s, Some t) = (Some s', Some t')"
      by (simp only: k(1) k'(1) g [OF k(2,3)] g [OF k'(2,3)])
    then have "s = s'" and "t = t'" by simp_all
    then show "k = k'" by (simp only: k(1) k'(1))
  qed
  then have "inj_on g (fst ` set vm)" using keys by (rule inj_on_subset)
  moreover have "distinct (map fst vm)"
    using processLogs_distinct [OF vm] by simp
  ultimately have "distinct (map g (map fst vm))"
    by (simp only: distinct_map set_map simp_thms)
  moreover have "map (\<lambda>f. (source f, target f)) (flows report) = map g (map fst vm)"
    by (simp add: fl flowEntry_def g_def Let_def)
  ultimately show ?thesis by (simp only:)
qed

end
